theory Spec2Isabelle
  imports Complex_Main "HOL-Library.Log_Nat"
begin
section \<open>JavaScript numbers\<close>

text \<open>
  A JavaScript number is an IEEE 754 double: a finite value, \<open>NaN\<close> or an infinity.
  A finite double is given by its value, a rational number; the two zeros are not
  told apart (no operation of the calculator divides by a variable, so the sign of a
  zero is never seen). \<open>Number.isFinite\<close> holds of the finite values only.
\<close>

datatype jsnum = Finite rat | NaN | PosInfinity | NegInfinity

fun Number_isFinite :: "jsnum \<Rightarrow> bool" where
  "Number_isFinite (Finite v) = True"
| "Number_isFinite NaN = False"
| "Number_isFinite PosInfinity = False"
| "Number_isFinite NegInfinity = False"

text \<open>
  The doubles are the numbers \<open>m * 2 ^ e\<close> with \<open>\<bar>m\<bar> < 2 ^ 53\<close> and
  \<open>- 1074 \<le> e \<le> 971\<close>. \<open>toDouble\<close> rounds a rational to the nearest double, a
  tie to the one with an even \<open>m\<close>; a number that rounds to \<open>2 ^ 1024\<close> or more
  in magnitude becomes an infinity. Here \<open>floorLog2 a\<close> is the integer \<open>k\<close> with
  \<open>2 ^ k \<le> a < 2 ^ (k + 1)\<close>, for positive \<open>a\<close>, and the unit in the last place
  of the result is \<open>2 ^ e\<close> with \<open>e = floorLog2 a - 52\<close>, or \<open>2 ^ (- 1074)\<close> for
  the subnormal numbers.
\<close>

definition pow2 :: "int \<Rightarrow> rat" where
  "pow2 e = (if 0 \<le> e then 2 ^ nat e else 1 / 2 ^ nat (- e))"

definition floorLog2 :: "rat \<Rightarrow> int" where
  "floorLog2 a = (if 1 \<le> a then bitlen \<lfloor>a\<rfloor> - 1 else - bitlen (\<lceil>1 / a\<rceil> - 1))"

definition roundHalfEven :: "rat \<Rightarrow> int" where
  "roundHalfEven r =
     (let f = \<lfloor>r\<rfloor>; d = r - of_int f
      in if d < 1 / 2 then f
         else if 1 / 2 < d then f + 1
         else if even f then f else f + 1)"

definition toDouble :: "rat \<Rightarrow> jsnum" where
  "toDouble x =
     (if x = 0 then Finite 0
      else
        let a = \<bar>x\<bar>;
            e = max (floorLog2 a - 52) (- 1074);
            m = roundHalfEven (a / pow2 e)
        in if 1024 < bitlen m + e
           then (if 0 < x then PosInfinity else NegInfinity)
           else Finite (sgn x * of_int m * pow2 e))"

text \<open>
  The arithmetic of doubles: the exact result, rounded; the rules of IEEE 754 for
  \<open>NaN\<close> and the infinities. \<open>jsSign\<close> is 1, -1 or 0 (for zero and \<open>NaN\<close>).
\<close>

fun jsSign :: "jsnum \<Rightarrow> int" where
  "jsSign (Finite v) = (if 0 < v then 1 else if v < 0 then - 1 else 0)"
| "jsSign NaN = 0"
| "jsSign PosInfinity = 1"
| "jsSign NegInfinity = - 1"

definition signedInfinity :: "int \<Rightarrow> jsnum" where
  "signedInfinity s = (if s = 0 then NaN else if 0 < s then PosInfinity else NegInfinity)"

fun jsAdd :: "jsnum \<Rightarrow> jsnum \<Rightarrow> jsnum" where
  "jsAdd (Finite a) (Finite b) = toDouble (a + b)"
| "jsAdd NaN y = NaN"
| "jsAdd x NaN = NaN"
| "jsAdd PosInfinity NegInfinity = NaN"
| "jsAdd NegInfinity PosInfinity = NaN"
| "jsAdd PosInfinity y = PosInfinity"
| "jsAdd NegInfinity y = NegInfinity"
| "jsAdd x PosInfinity = PosInfinity"
| "jsAdd x NegInfinity = NegInfinity"

fun jsNeg :: "jsnum \<Rightarrow> jsnum" where
  "jsNeg (Finite a) = Finite (- a)"
| "jsNeg NaN = NaN"
| "jsNeg PosInfinity = NegInfinity"
| "jsNeg NegInfinity = PosInfinity"

fun jsMul :: "jsnum \<Rightarrow> jsnum \<Rightarrow> jsnum" where
  "jsMul (Finite a) (Finite b) = toDouble (a * b)"
| "jsMul NaN y = NaN"
| "jsMul x NaN = NaN"
| "jsMul x y = signedInfinity (jsSign x * jsSign y)"

fun jsDiv :: "jsnum \<Rightarrow> jsnum \<Rightarrow> jsnum" where
  "jsDiv (Finite a) (Finite b) =
     (if b = 0 then signedInfinity (jsSign (Finite a)) else toDouble (a / b))"
| "jsDiv NaN y = NaN"
| "jsDiv x NaN = NaN"
| "jsDiv (Finite a) y = Finite 0"
| "jsDiv x (Finite b) = signedInfinity (jsSign x * (if b < 0 then - 1 else 1))"
| "jsDiv x y = NaN"

text \<open>The operators \<open>+\<close>, \<open>-\<close>, \<open>*\<close> and \<open>/\<close> of the source, on doubles.\<close>

instantiation jsnum :: "{plus, minus, times, inverse}"
begin

definition plus_jsnum :: "jsnum \<Rightarrow> jsnum \<Rightarrow> jsnum" where
  "plus_jsnum x y = jsAdd x y"

definition minus_jsnum :: "jsnum \<Rightarrow> jsnum \<Rightarrow> jsnum" where
  "minus_jsnum x y = jsAdd x (jsNeg y)"

definition times_jsnum :: "jsnum \<Rightarrow> jsnum \<Rightarrow> jsnum" where
  "times_jsnum x y = jsMul x y"

definition divide_jsnum :: "jsnum \<Rightarrow> jsnum \<Rightarrow> jsnum" where
  "divide_jsnum x y = jsDiv x y"

definition inverse_jsnum :: "jsnum \<Rightarrow> jsnum" where
  "inverse_jsnum x = jsDiv (Finite 1) x"

instance ..

end

text \<open>
  \<open>Math.round\<close>: the integer nearest to the double it is given, a half rounded
  towards plus infinity; \<open>NaN\<close> and the infinities are returned as they are. The
  result is computed from the value of the double, without rounding in between.
\<close>

fun Math_round :: "jsnum \<Rightarrow> jsnum" where
  "Math_round (Finite x) = Finite (of_int \<lfloor>x + 1 / 2\<rfloor>)"
| "Math_round NaN = NaN"
| "Math_round PosInfinity = PosInfinity"
| "Math_round NegInfinity = NegInfinity"

section \<open>Cost model (calculateCosts)\<close>

text \<open>
  The state holds the numbers of the inputs. The cost model is given finite numbers
  only (\<open>readState\<close> below sees to it), so its state holds their values, and
  \<open>toDouble\<close> makes the doubles of them: a value that is a double is left as it
  is (\<open>toDouble_idem\<close> below), and a decimal number such as \<open>0.3\<close> stands for
  the double that \<open>Number\<close> reads from it. The state as it is read holds the
  numbers \<open>Number(...)\<close> can return. Every operation of \<open>calculateCosts\<close> is the
  operation on doubles, in the order of the source. The literals \<open>1.5\<close>, \<open>0.5\<close>
  and \<open>0.25\<close> are doubles; \<open>0.05\<close>, \<open>0.024\<close> and \<open>0.04\<close> stand for the
  doubles nearest to them.
\<close>

record 'n CalculatorState =
  engineers :: 'n
  salary :: 'n
  users :: 'n
  timeline :: 'n
  hasExistingAuth :: bool

record BuildCosts =
  build_total :: jsnum
  build_initialDevelopment :: jsnum
  build_ongoingMaintenance :: jsnum
  build_securityAndCompliance :: jsnum
  build_opportunityCost :: jsnum
  build_oneTimeTransition :: jsnum

record SaasCosts =
  saas_total :: jsnum
  saas_userLicensing :: jsnum
  saas_integrationWork :: jsnum
  saas_ongoingSupport :: jsnum
  saas_migrationCost :: jsnum

record FusionauthCosts =
  fus_total :: jsnum
  fus_licensing :: jsnum
  fus_integration :: jsnum
  fus_maintenance :: jsnum

record CostBreakdown =
  build :: BuildCosts
  saas :: SaasCosts
  fusionauth :: FusionauthCosts
  savingsVsBuild :: jsnum

definition overheadMultiplier :: jsnum where
  "overheadMultiplier = Finite (3 / 2)"

definition buildInitialDevelopment :: "rat CalculatorState \<Rightarrow> jsnum" where
  "buildInitialDevelopment state =
     Math_round
       (toDouble (engineers state) * (toDouble (salary state) * overheadMultiplier) * Finite (1 / 2))"

definition buildOngoingMaintenance :: "rat CalculatorState \<Rightarrow> jsnum" where
  "buildOngoingMaintenance state =
     Math_round
       ((toDouble (timeline state) * Finite 78 * (toDouble (salary state) * overheadMultiplier))
        / Finite 2080)"

definition buildSecurityAndCompliance :: "rat CalculatorState \<Rightarrow> jsnum" where
  "buildSecurityAndCompliance state = Math_round (toDouble (timeline state) * Finite 80000)"

definition buildOpportunityCost :: "rat CalculatorState \<Rightarrow> jsnum" where
  "buildOpportunityCost state = Math_round (toDouble (timeline state) * Finite 6120)"

definition buildTransitionOneTime :: jsnum where
  "buildTransitionOneTime = Finite 50000"

definition buildMaintenanceExisting :: "rat CalculatorState \<Rightarrow> jsnum" where
  "buildMaintenanceExisting state = Finite 85000 * toDouble (timeline state)"

definition buildTotal :: "rat CalculatorState \<Rightarrow> jsnum" where
  "buildTotal state =
     (if hasExistingAuth state
      then buildTransitionOneTime + buildMaintenanceExisting state
      else buildInitialDevelopment state + buildOngoingMaintenance state
           + buildSecurityAndCompliance state + buildOpportunityCost state)"

definition saasMigrationCost :: "rat CalculatorState \<Rightarrow> jsnum" where
  "saasMigrationCost state = (if hasExistingAuth state then Finite 100000 else Finite 0)"

definition saasUserLicensing :: "rat CalculatorState \<Rightarrow> jsnum" where
  "saasUserLicensing state =
     Math_round
       (toDouble (users state) * toDouble (5 / 100) * Finite 12 * toDouble (timeline state))"

definition saasIntegrationWorkBase :: "rat CalculatorState \<Rightarrow> jsnum" where
  "saasIntegrationWorkBase state =
     Math_round
       (toDouble (engineers state) * (toDouble (salary state) * overheadMultiplier) * Finite (1 / 4))"

definition saasIntegrationWork :: "rat CalculatorState \<Rightarrow> jsnum" where
  "saasIntegrationWork state = saasIntegrationWorkBase state + saasMigrationCost state"

definition saasOngoingSupport :: "rat CalculatorState \<Rightarrow> jsnum" where
  "saasOngoingSupport state =
     Math_round
       ((toDouble (timeline state) * Finite 104 * (toDouble (salary state) * overheadMultiplier))
        / Finite 2080)"

definition saasTotal :: "rat CalculatorState \<Rightarrow> jsnum" where
  "saasTotal state =
     saasUserLicensing state + saasIntegrationWork state + saasOngoingSupport state"

definition fusLicensing :: "rat CalculatorState \<Rightarrow> jsnum" where
  "fusLicensing state =
     Math_round
       (toDouble (users state) * toDouble (24 / 1000) * Finite 12 * toDouble (timeline state))"

definition fusIntegration :: "rat CalculatorState \<Rightarrow> jsnum" where
  "fusIntegration state =
     Math_round
       (toDouble (engineers state) * (toDouble (salary state) * overheadMultiplier)
        * toDouble (4 / 100))"

definition fusMaintenance :: "rat CalculatorState \<Rightarrow> jsnum" where
  "fusMaintenance state =
     Math_round
       ((toDouble (timeline state) * Finite 26 * (toDouble (salary state) * overheadMultiplier))
        / Finite 2080)"

definition fusTotal :: "rat CalculatorState \<Rightarrow> jsnum" where
  "fusTotal state = fusLicensing state + fusIntegration state + fusMaintenance state"

definition calculateCosts :: "rat CalculatorState \<Rightarrow> CostBreakdown" where
  "calculateCosts state =
     \<lparr> build =
         \<lparr> build_total = buildTotal state,
           build_initialDevelopment =
             (if hasExistingAuth state then buildTransitionOneTime
              else buildInitialDevelopment state),
           build_ongoingMaintenance =
             (if hasExistingAuth state then buildMaintenanceExisting state
              else buildOngoingMaintenance state),
           build_securityAndCompliance =
             (if hasExistingAuth state then Finite 0 else buildSecurityAndCompliance state),
           build_opportunityCost =
             (if hasExistingAuth state then Finite 0 else buildOpportunityCost state),
           build_oneTimeTransition =
             (if hasExistingAuth state then buildTransitionOneTime else Finite 0) \<rparr>,
       saas =
         \<lparr> saas_total = saasTotal state,
           saas_userLicensing = saasUserLicensing state,
           saas_integrationWork = saasIntegrationWork state,
           saas_ongoingSupport = saasOngoingSupport state,
           saas_migrationCost = saasMigrationCost state \<rparr>,
       fusionauth =
         \<lparr> fus_total = fusTotal state,
           fus_licensing = fusLicensing state,
           fus_integration = fusIntegration state,
           fus_maintenance = fusMaintenance state \<rparr>,
       savingsVsBuild = buildTotal state - fusTotal state \<rparr>"

text \<open>
  The state of the specification's scenario, with and without an existing system; a
  state with an existing system and a timeline of one sixteenth of a year; and two
  states at which the rounding of the doubles shows.
\<close>

definition scenarioState :: "bool \<Rightarrow> rat CalculatorState" where
  "scenarioState auth =
     \<lparr> engineers = 3, salary = 150000, users = 10000, timeline = 3,
       hasExistingAuth = auth \<rparr>"

definition fractionalState :: "rat CalculatorState" where
  "fractionalState =
     \<lparr> engineers = 3, salary = 150000, users = 10000, timeline = 1 / 16,
       hasExistingAuth = True \<rparr>"

definition smallVolumeState :: "rat CalculatorState" where
  "smallVolumeState =
     \<lparr> engineers = 3, salary = 150000, users = 81, timeline = 5 / 2,
       hasExistingAuth = False \<rparr>"

definition hugeState :: "rat CalculatorState" where
  "hugeState =
     \<lparr> engineers = 2 ^ 600, salary = 2 ^ 600, users = 10000, timeline = 3,
       hasExistingAuth = False \<rparr>"

section \<open>Reading the calculator inputs (queryNumberInput, readState)\<close>

record HTMLInputElement =
  el_value :: string
  el_min :: string
  el_max :: string
  el_checked :: bool

text \<open>
  The document is seen through \<open>document.querySelector\<close>: for a selector, the first
  matching input element, or nothing (\<open>null\<close>).
\<close>

type_synonym document = "string \<Rightarrow> HTMLInputElement option"

text \<open>
  The conversion \<open>Number(el.value)\<close> belongs to the platform; the functions take it as
  the parameter \<open>toNumber\<close>.
\<close>

definition queryNumberInput ::
  "(string \<Rightarrow> jsnum) \<Rightarrow> document \<Rightarrow> string \<Rightarrow> jsnum \<Rightarrow> jsnum" where
  "queryNumberInput toNumber doc selector fallback =
     (case doc selector of
        None \<Rightarrow> fallback
      | Some el \<Rightarrow>
          (let v = toNumber (el_value el)
           in if Number_isFinite v then v else fallback))"

definition queryBooleanInput :: "document \<Rightarrow> string \<Rightarrow> bool \<Rightarrow> bool" where
  "queryBooleanInput doc selector fallback =
     (case doc selector of None \<Rightarrow> fallback | Some el \<Rightarrow> el_checked el)"

definition sel_engineers :: string where
  \<open>sel_engineers = ''input[name="engineers"]''\<close>
definition sel_salary :: string where
  \<open>sel_salary = ''input[name="salary"]''\<close>
definition sel_volume :: string where
  \<open>sel_volume = ''input[name="volume"]''\<close>
definition sel_timeline :: string where
  \<open>sel_timeline = ''input[name="timeline"]''\<close>
definition sel_auth :: string where
  \<open>sel_auth = ''input[name="auth"]''\<close>

definition readState ::
  "(string \<Rightarrow> jsnum) \<Rightarrow> document \<Rightarrow> jsnum CalculatorState" where
  "readState toNumber doc =
     \<lparr> engineers = queryNumberInput toNumber doc sel_engineers (Finite 3),
       salary = queryNumberInput toNumber doc sel_salary (Finite 150000),
       users = queryNumberInput toNumber doc sel_volume (Finite 10000),
       timeline = queryNumberInput toNumber doc sel_timeline (Finite 3),
       hasExistingAuth = queryBooleanInput doc sel_auth False \<rparr>"

text \<open>
  \<open>recalcAndRender\<close> passes the state it has read to \<open>calculateCosts\<close>. The cost
  model above takes finite numbers: \<open>costModelInput\<close> is the state as the cost model
  takes it, and \<open>None\<close> when a number of the state is not finite.
\<close>

fun finiteValue :: "jsnum \<Rightarrow> rat option" where
  "finiteValue (Finite v) = Some v"
| "finiteValue NaN = None"
| "finiteValue PosInfinity = None"
| "finiteValue NegInfinity = None"

definition costModelInput :: "jsnum CalculatorState \<Rightarrow> rat CalculatorState option" where
  "costModelInput state =
     (case (finiteValue (engineers state), finiteValue (salary state),
            finiteValue (users state), finiteValue (timeline state)) of
        (Some e, Some s, Some u, Some t) \<Rightarrow>
          Some \<lparr> engineers = e, salary = s, users = u, timeline = t,
                 hasExistingAuth = hasExistingAuth state \<rparr>
      | _ \<Rightarrow> None)"

definition recalcCosts :: "(string \<Rightarrow> jsnum) \<Rightarrow> document \<Rightarrow> CostBreakdown option" where
  "recalcCosts toNumber doc = map_option calculateCosts (costModelInput (readState toNumber doc))"

text \<open>
  The input behind a selector gives no usable number: it is missing, or its value
  converts to \<open>NaN\<close> or an infinity.
\<close>

definition noFiniteValue :: "(string \<Rightarrow> jsnum) \<Rightarrow> document \<Rightarrow> string \<Rightarrow> bool" where
  "noFiniteValue toNumber doc selector =
     (case doc selector of
        None \<Rightarrow> True
      | Some el \<Rightarrow> \<not> Number_isFinite (toNumber (el_value el)))"

definition defaultState :: "jsnum CalculatorState" where
  "defaultState =
     \<lparr> engineers = Finite 3, salary = Finite 150000, users = Finite 10000,
       timeline = Finite 3, hasExistingAuth = False \<rparr>"

section \<open>Strings\<close>

text \<open>
  A string is a list of 8-bit code units, read as the code units U+0000 to U+00FF of
  a JavaScript string (ASCII and Latin-1). On these, \<open>toLowerCase\<close> works unit by
  unit and keeps the length, and \<open>trim\<close> removes the white space and line
  terminators TAB, LF, VT, FF, CR, SPACE and NBSP from both ends.
\<close>

definition toLowerChar :: "char \<Rightarrow> char" where
  "toLowerChar c =
     (let n = (of_char c :: nat)
      in if (65 \<le> n \<and> n \<le> 90) \<or> (192 \<le> n \<and> n \<le> 222 \<and> n \<noteq> 215)
         then char_of (n + 32) else c)"

definition toLowerCase :: "string \<Rightarrow> string" where
  "toLowerCase s = map toLowerChar s"

definition isWhiteSpace :: "char \<Rightarrow> bool" where
  "isWhiteSpace c = ((of_char c :: nat) \<in> {9, 10, 11, 12, 13, 32, 160})"

definition trim :: "string \<Rightarrow> string" where
  "trim s = rev (dropWhile isWhiteSpace (rev (dropWhile isWhiteSpace s)))"

definition normalizeText :: "string \<Rightarrow> string" where
  "normalizeText text = trim (toLowerCase text)"

text \<open>
  \<open>s.indexOf(q, pos)\<close>: the start is clamped to the length; the result is the first
  index from there at which \<open>q\<close> occurs, \<open>None\<close> standing for \<open>-1\<close>.
\<close>

fun findFrom :: "string \<Rightarrow> string \<Rightarrow> nat \<Rightarrow> nat option" where
  "findFrom [] q k = (if q = [] then Some k else None)"
| "findFrom (c # s) q k =
     (if take (length q) (c # s) = q then Some k else findFrom s q (Suc k))"

definition indexOf :: "string \<Rightarrow> string \<Rightarrow> nat \<Rightarrow> nat option" where
  "indexOf s q pos = (let start = min pos (length s) in findFrom (drop start s) q start)"

definition str_includes :: "string \<Rightarrow> string \<Rightarrow> bool" where
  "str_includes s q = (indexOf s q 0 \<noteq> None)"

text \<open>\<open>s.slice(a, b)\<close> and \<open>s.slice(a)\<close> for indices that are not negative.\<close>

definition slice :: "string \<Rightarrow> nat \<Rightarrow> nat \<Rightarrow> string" where
  "slice s a b = take (b - a) (drop a s)"

definition sliceFrom :: "string \<Rightarrow> nat \<Rightarrow> string" where
  "sliceFrom s a = drop a s"

text \<open>
  A conversion to instantiate \<open>toNumber\<close> at concrete inputs. It agrees with
  \<open>Number\<close> on the strings it accepts: white space around an optional sign and
  decimal digits, and the empty string, which \<open>Number\<close> reads as 0. It is used for
  examples only; the theorems about \<open>readState\<close> hold for every conversion.
\<close>

definition isDigit :: "char \<Rightarrow> bool" where
  "isDigit c = (48 \<le> (of_char c :: nat) \<and> (of_char c :: nat) \<le> 57)"

definition digitsValue :: "string \<Rightarrow> rat" where
  "digitsValue ds = foldl (\<lambda>a c. 10 * a + of_nat (of_char c - 48)) 0 ds"

definition decimalNumber :: "string \<Rightarrow> jsnum" where
  "decimalNumber s =
     (case trim s of
        [] \<Rightarrow> Finite 0
      | c # ds \<Rightarrow>
          if c = CHR ''-'' \<and> ds \<noteq> [] \<and> list_all isDigit ds then Finite (- digitsValue ds)
          else if c = CHR ''+'' \<and> ds \<noteq> [] \<and> list_all isDigit ds then Finite (digitsValue ds)
          else if list_all isDigit (c # ds) then Finite (digitsValue (c # ds))
          else NaN)"

definition negativeEngineersDoc :: document where
  "negativeEngineersDoc selector =
     (if selector = sel_engineers
      then Some \<lparr> el_value = ''-5'', el_min = ''1'', el_max = ''10'', el_checked = False \<rparr>
      else None)"

definition notANumberDoc :: document where
  "notANumberDoc selector =
     (if selector = sel_auth then None
      else Some \<lparr> el_value = ''abc'', el_min = ''1'', el_max = ''10'', el_checked = False \<rparr>)"

section \<open>The DOM tree\<close>

text \<open>
  A node is a text node, a comment or an element with its local name, its attributes
  and its children in document order.
\<close>

datatype node =
    Text string
  | Comment string
  | Element string "(string \<times> string) list" "node list"

definition OPENED_ATTR :: string where "OPENED_ATTR = ''data-opened-by-search''"
definition HIGHLIGHT_CLASS :: string where "HIGHLIGHT_CLASS = ''faq-search-highlight''"
definition HIGHLIGHT_TAG :: string where "HIGHLIGHT_TAG = ''mark''"

text \<open>The class tokens of an element: its \<open>class\<close> attribute split at ASCII white space.\<close>

definition isAsciiSpace :: "char \<Rightarrow> bool" where
  "isAsciiSpace c = ((of_char c :: nat) \<in> {9, 10, 12, 13, 32})"

fun splitTokens :: "string \<Rightarrow> string \<Rightarrow> string list" where
  "splitTokens cur [] = (if cur = [] then [] else [cur])"
| "splitTokens cur (c # cs) =
     (if isAsciiSpace c
      then (if cur = [] then splitTokens [] cs else cur # splitTokens [] cs)
      else splitTokens (cur @ [c]) cs)"

definition classList :: "(string \<times> string) list \<Rightarrow> string list" where
  "classList attrs = (case map_of attrs ''class'' of None \<Rightarrow> [] | Some v \<Rightarrow> splitTokens [] v)"

text \<open>The selector \<open>mark.faq-search-highlight\<close>.\<close>

fun isHighlightMark :: "node \<Rightarrow> bool" where
  "isHighlightMark (Element tag attrs children) =
     (tag = HIGHLIGHT_TAG \<and> HIGHLIGHT_CLASS \<in> set (classList attrs))"
| "isHighlightMark (Text s) = False"
| "isHighlightMark (Comment s) = False"

text \<open>
  \<open>textContent\<close>: of a text node or comment its data, of an element the data of its
  text descendants in document order (comments do not count).
\<close>

fun descendantText :: "node \<Rightarrow> string" where
  "descendantText (Text s) = s"
| "descendantText (Comment s) = []"
| "descendantText (Element tag attrs children) = concat (map descendantText children)"

fun textContent :: "node \<Rightarrow> string" where
  "textContent (Text s) = s"
| "textContent (Comment s) = s"
| "textContent (Element tag attrs children) = concat (map descendantText children)"

text \<open>
  \<open>Node.normalize()\<close>: in the whole subtree, empty text nodes are removed and
  adjacent text nodes are joined into the first of them.
\<close>

fun mergeText :: "node list \<Rightarrow> node list" where
  "mergeText [] = []"
| "mergeText (Text s # ns) =
     (if s = [] then mergeText ns
      else (case mergeText ns of
              Text t # ms \<Rightarrow> Text (s @ t) # ms
            | ms \<Rightarrow> Text s # ms))"
| "mergeText (n # ns) = n # mergeText ns"

fun normalize_node :: "node \<Rightarrow> node" where
  "normalize_node (Element tag attrs children) =
     Element tag attrs (mergeText (map normalize_node children))"
| "normalize_node (Text s) = Text s"
| "normalize_node (Comment s) = Comment s"

section \<open>Highlight engine\<close>

subsection \<open>clearHighlights\<close>

text \<open>
  The source takes the list \<open>marks\<close> of all elements below the container that match
  \<open>mark.faq-search-highlight\<close>, in document order, and for each of them replaces
  it, in its parent, by a text node holding its \<open>textContent\<close> and calls
  \<open>normalize()\<close> on that parent. A mark of the list that lies inside an earlier
  mark has left the container's tree with that mark when its turn comes, and its turn
  changes nothing in the container. So each turn that changes the container works on
  the first mark, in document order, that is still in the tree.

  \<open>replaceFirst\<close> searches a list of siblings, \<open>replaceBelow\<close> the children of a
  node; the flag tells the parent of the siblings that one of them was replaced, so
  that it is the parent to normalise. \<open>clearStep\<close> is one turn, and
  \<open>clearHighlights\<close> runs as many turns as \<open>marks\<close> is long.
\<close>

fun marksBelow :: "node \<Rightarrow> nat" where
  "marksBelow (Element tag attrs children) =
     sum_list (map (\<lambda>c. (if isHighlightMark c then 1 else 0) + marksBelow c) children)"
| "marksBelow (Text s) = 0"
| "marksBelow (Comment s) = 0"

fun replaceFirst :: "node list \<Rightarrow> (node list \<times> bool) option"
  and replaceBelow :: "node \<Rightarrow> node option" where
  "replaceFirst [] = None"
| "replaceFirst (c # cs) =
     (if isHighlightMark c then Some (Text (textContent c) # cs, True)
      else (case replaceBelow c of
              Some c' \<Rightarrow> Some (c' # cs, False)
            | None \<Rightarrow>
                (case replaceFirst cs of
                   None \<Rightarrow> None
                 | Some (cs', direct) \<Rightarrow> Some (c # cs', direct))))"
| "replaceBelow (Element tag attrs children) =
     (case replaceFirst children of
        None \<Rightarrow> None
      | Some (children', direct) \<Rightarrow>
          Some (Element tag attrs
                  (if direct then mergeText (map normalize_node children') else children')))"
| "replaceBelow (Text s) = None"
| "replaceBelow (Comment s) = None"

definition clearStep :: "node \<Rightarrow> node" where
  "clearStep c = (case replaceBelow c of None \<Rightarrow> c | Some c' \<Rightarrow> c')"

fun clearLoop :: "nat \<Rightarrow> node \<Rightarrow> node" where
  "clearLoop 0 c = c"
| "clearLoop (Suc n) c = clearLoop n (clearStep c)"

definition clearHighlights :: "node \<Rightarrow> node" where
  "clearHighlights container = clearLoop (marksBelow container) container"

text \<open>
  The tree the loop ends with, in one pass (\<open>clearHighlights_clearedTree\<close> below):
  every outermost mark has become a text node, and the subtree of every element that
  had such a mark as a child is in normal form.
\<close>

fun clearedTree :: "node \<Rightarrow> node" where
  "clearedTree (Element tag attrs children) =
     (let replaced =
            map (\<lambda>c. if isHighlightMark c then Text (textContent c) else clearedTree c)
              children
      in Element tag attrs
           (if list_ex isHighlightMark children
            then mergeText (map normalize_node replaced)
            else replaced))"
| "clearedTree (Text s) = Text s"
| "clearedTree (Comment s) = Comment s"

subsection \<open>highlightMatchesInElement\<close>

text \<open>
  \<open>pushText\<close> and \<open>pushMark\<close> append to the fragment. Setting \<open>textContent\<close> of the
  new mark to the empty string leaves it without children.
\<close>

definition pushText :: "string \<Rightarrow> node list \<Rightarrow> node list" where
  "pushText s frag = frag @ [Text s]"

definition markElement :: "string \<Rightarrow> node" where
  "markElement s =
     Element HIGHLIGHT_TAG [(''class'', HIGHLIGHT_CLASS)] (if s = [] then [] else [Text s])"

definition pushMark :: "string \<Rightarrow> node list \<Rightarrow> node list" where
  "pushMark s frag = frag @ [markElement s]"

text \<open>
  The \<open>while (true)\<close> loop over one text node. It need not terminate: \<open>None\<close> is
  the run that never leaves the loop.
\<close>

partial_function (option) scanMatches ::
  "string \<Rightarrow> string \<Rightarrow> string \<Rightarrow> nat \<Rightarrow> node list \<Rightarrow> node list option" where
  "scanMatches original lower q pos frag =
     (case indexOf lower q pos of
        None \<Rightarrow> Some (pushText (sliceFrom original pos) frag)
      | Some idx \<Rightarrow>
          scanMatches original lower q (idx + length q)
            (pushMark (slice original idx (idx + length q))
               (if idx > pos then pushText (slice original pos idx) frag else frag)))"

declare scanMatches.simps [code]

text \<open>
  The tree walker visits every text node below the container and accepts those whose
  normalised value includes \<open>q\<close>; each accepted text node is replaced by its fragment.
\<close>

fun highlightNode :: "string \<Rightarrow> node \<Rightarrow> node list option"
  and highlightNodes :: "string \<Rightarrow> node list \<Rightarrow> node list option" where
  "highlightNode q (Text s) =
     (if str_includes (normalizeText s) q
      then scanMatches s (normalizeText s) q 0 []
      else Some [Text s])"
| "highlightNode q (Comment s) = Some [Comment s]"
| "highlightNode q (Element tag attrs children) =
     (case highlightNodes q children of
        None \<Rightarrow> None
      | Some children' \<Rightarrow> Some [Element tag attrs children'])"
| "highlightNodes q [] = Some []"
| "highlightNodes q (n # ns) =
     (case highlightNode q n of
        None \<Rightarrow> None
      | Some frag \<Rightarrow>
          (case highlightNodes q ns of
             None \<Rightarrow> None
           | Some rest \<Rightarrow> Some (frag @ rest)))"

fun highlightMatchesInElement :: "node \<Rightarrow> string \<Rightarrow> node option" where
  "highlightMatchesInElement (Element tag attrs children) query =
     (if query = [] then Some (Element tag attrs children)
      else (case highlightNodes (normalizeText query) children of
              None \<Rightarrow> None
            | Some children' \<Rightarrow> Some (Element tag attrs children')))"
| "highlightMatchesInElement (Text s) query = Some (Text s)"
| "highlightMatchesInElement (Comment s) query = Some (Comment s)"

text \<open>Properties of trees used in the statements below.\<close>

fun hasHighlightMark :: "node \<Rightarrow> bool" where
  "hasHighlightMark (Element tag attrs children) =
     list_ex (\<lambda>c. isHighlightMark c \<or> hasHighlightMark c) children"
| "hasHighlightMark (Text s) = False"
| "hasHighlightMark (Comment s) = False"

text \<open>
  A list of siblings is in normal form when it has no empty text node and no two
  adjacent text nodes; a tree is when all its lists of children are.
\<close>

fun normalSiblings :: "node list \<Rightarrow> bool" where
  "normalSiblings [] = True"
| "normalSiblings (Text s # Text t # ns) = False"
| "normalSiblings (Text s # ns) = (s \<noteq> [] \<and> normalSiblings ns)"
| "normalSiblings (n # ns) = normalSiblings ns"

fun normalTree :: "node \<Rightarrow> bool" where
  "normalTree (Element tag attrs children) =
     (normalSiblings children \<and> list_all normalTree children)"
| "normalTree (Text s) = True"
| "normalTree (Comment s) = True"

text \<open>
  The element skeleton of a tree: what is left when every text node and every
  highlight mark is taken out.
\<close>

fun isText :: "node \<Rightarrow> bool" where
  "isText (Text s) = True"
| "isText (Comment s) = False"
| "isText (Element tag attrs children) = False"


text \<open>
  Notions for the proofs: the nodes a fragment is made of (text nodes and new marks),
  a list of siblings that holds a highlight mark at some depth, what
  \<open>clearHighlights\<close> puts in the place of one child, and the children the skeleton
  keeps.
\<close>

definition isPiece :: "node \<Rightarrow> bool" where
  "isPiece n = (isText n \<or> n = markElement (descendantText n))"

definition anyMark :: "node list \<Rightarrow> bool" where
  "anyMark ns = list_ex (\<lambda>c. isHighlightMark c \<or> hasHighlightMark c) ns"

definition replaceMark :: "node \<Rightarrow> node" where
  "replaceMark c = (if isHighlightMark c then Text (textContent c) else clearedTree c)"


text \<open>
  Further notions for the proofs: what \<open>mergeText\<close> does with the first of a list
  of siblings once the rest is merged, the number of highlight marks in and below a
  list of siblings, and the children of a cleared element.
\<close>

fun mergeHead :: "node \<Rightarrow> node list \<Rightarrow> node list" where
  "mergeHead (Text s) ms =
     (if s = [] then ms
      else (case ms of Text t # ms' \<Rightarrow> Text (s @ t) # ms' | _ \<Rightarrow> Text s # ms))"
| "mergeHead n ms = n # ms"

definition marksIn :: "node list \<Rightarrow> nat" where
  "marksIn cs = sum_list (map (\<lambda>c. (if isHighlightMark c then 1 else 0) + marksBelow c) cs)"

definition clearedChildren :: "node list \<Rightarrow> node list" where
  "clearedChildren cs =
     (if list_ex isHighlightMark cs
      then mergeText (map normalize_node (map replaceMark cs))
      else map replaceMark cs)"

text \<open>Apply-and-clear cycles, one for each query of a list.\<close>

fun highlightClearCycles :: "node \<Rightarrow> string list \<Rightarrow> node option" where
  "highlightClearCycles c [] = Some c"
| "highlightClearCycles c (query # queries) =
     (case highlightMatchesInElement c query of
        None \<Rightarrow> None
      | Some c' \<Rightarrow> highlightClearCycles (clearHighlights c') queries)"

text \<open>Trees for the examples.\<close>

definition leadingSpaceTitle :: node where
  "leadingSpaceTitle = Element ''h3'' [] [Text '' api'']"

definition oneLetterParagraph :: node where
  "oneLetterParagraph = Element ''p'' [] [Text ''a'']"


definition apiParagraph :: node where
  "apiParagraph =
     Element ''p'' [(''id'', ''intro'')]
       [Text ''The API and '', Element ''b'' [] [Text ''Api keys'']]"

section \<open>Search controller\<close>

text \<open>
  The view of one FAQ entry. The entry is identified by its position in the list that
  \<open>collectFaqItems\<close> built. Of the entry's element the model keeps the value of its
  \<open>data-opened-by-search\<close> attribute and whether the entry is open; the question
  header is present or not (\<open>null\<close>); the title and the answer are trees. The title
  and the answer are taken to be disjoint parts of the entry, and to hold all of its
  highlight marks, so that \<open>clearHighlights(item)\<close> is \<open>clearHighlights\<close> on both.
\<close>

record FaqItemElements =
  openedBySearchAttr :: "string option"
  isFaqItemOpen :: bool
  questionWrapper :: bool
  questionTitle :: "node option"
  answer :: "node option"

text \<open>
  \<open>isFaqItemOpen\<close> reads the computed layout of the answer, or \<open>aria-expanded\<close>;
  the model keeps its outcome as a field of the entry.
\<close>

datatype actor = User | SearchController

text \<open>
  The module state: the entries, the set \<open>searchOpenedItems\<close>, and two logs of
  effects on the page: the clicks dispatched on question headers, with who
  dispatched them, and the entries scrolled into view, both oldest first.
\<close>

record SearchState =
  faqItems :: "FaqItemElements list"
  searchOpenedItems :: "nat set"
  clickLog :: "(actor \<times> nat) list"
  scrollLog :: "nat list"

definition updateItem ::
  "nat \<Rightarrow> (FaqItemElements \<Rightarrow> FaqItemElements) \<Rightarrow> SearchState \<Rightarrow> SearchState" where
  "updateItem i f st = st\<lparr> faqItems := (faqItems st)[i := f (faqItems st ! i)] \<rparr>"

text \<open>
  Modelled from the spec: the page's own interaction on a question header, which is
  not part of the repository, is the toggle action: a click opens a closed entry and
  closes an open one. After it runs the listener that \<open>ensureClickTagging\<close> put on
  every question header, which sets the marker attribute to \<open>true\<close>.
\<close>

definition clickQuestionWrapper :: "actor \<Rightarrow> nat \<Rightarrow> SearchState \<Rightarrow> SearchState" where
  "clickQuestionWrapper who i st =
     (updateItem i
        (\<lambda>els. els\<lparr> isFaqItemOpen := \<not> isFaqItemOpen els,
                     openedBySearchAttr := Some ''true'' \<rparr>) st)
       \<lparr> clickLog := clickLog st @ [(who, i)] \<rparr>"

definition isMatch :: "node option \<Rightarrow> string \<Rightarrow> bool" where
  "isMatch el q =
     (case el of None \<Rightarrow> False | Some n \<Rightarrow> str_includes (normalizeText (textContent n)) q)"

definition itemMatchesQuery :: "FaqItemElements \<Rightarrow> string \<Rightarrow> bool" where
  "itemMatchesQuery els q = (isMatch (questionTitle els) q \<or> isMatch (answer els) q)"

definition clearItem :: "FaqItemElements \<Rightarrow> FaqItemElements" where
  "clearItem els =
     els\<lparr> questionTitle := map_option clearHighlights (questionTitle els),
          answer := map_option clearHighlights (answer els) \<rparr>"

definition openFaqItem :: "nat \<Rightarrow> SearchState \<Rightarrow> SearchState" where
  "openFaqItem i st =
     (if \<not> questionWrapper (faqItems st ! i) then st
      else if openedBySearchAttr (faqItems st ! i) = Some ''true'' then st
      else (let st1 = clickQuestionWrapper SearchController i st;
                st2 = updateItem i (\<lambda>els. els\<lparr> openedBySearchAttr := Some ''true'' \<rparr>) st1
            in st2\<lparr> searchOpenedItems := insert i (searchOpenedItems st2) \<rparr>))"

text \<open>The highlighting of one optional region (\<open>if (els.questionTitle) ...\<close>).\<close>

definition highlightRegion :: "node option \<Rightarrow> string \<Rightarrow> node option option" where
  "highlightRegion el q =
     (case el of
        None \<Rightarrow> Some None
      | Some n \<Rightarrow> map_option Some (highlightMatchesInElement n q))"

text \<open>
  The second \<open>forEach\<close> of \<open>findFirstMatchAndAct\<close>: the entries from position \<open>i\<close>
  on, with the first matched entry found so far.
\<close>

fun matchLoop ::
  "string \<Rightarrow> nat \<Rightarrow> FaqItemElements list \<Rightarrow> nat option
    \<Rightarrow> (FaqItemElements list \<times> nat option) option" where
  "matchLoop q i [] firstMatched = Some ([], firstMatched)"
| "matchLoop q i (els # rest) firstMatched =
     (if isMatch (questionTitle els) q \<or> isMatch (answer els) q
      then (case highlightRegion (questionTitle els) q of
              None \<Rightarrow> None
            | Some title' \<Rightarrow>
                (case highlightRegion (answer els) q of
                   None \<Rightarrow> None
                 | Some answer' \<Rightarrow>
                     (case matchLoop q (Suc i) rest
                             (if firstMatched = None then Some i else firstMatched) of
                        None \<Rightarrow> None
                      | Some (rest', found) \<Rightarrow>
                          Some (els\<lparr> questionTitle := title', answer := answer' \<rparr> # rest',
                                found))))
      else (case matchLoop q (Suc i) rest firstMatched of
              None \<Rightarrow> None
            | Some (rest', found) \<Rightarrow> Some (els # rest', found)))"

definition findFirstMatchAndAct :: "string \<Rightarrow> SearchState \<Rightarrow> SearchState option" where
  "findFirstMatchAndAct query st =
     (let q = normalizeText query
      in if q = [] then Some st
         else (case matchLoop q 0 (map clearItem (faqItems st)) None of
                 None \<Rightarrow> None
               | Some (items', firstMatched) \<Rightarrow>
                   (let st1 = st\<lparr> faqItems := items' \<rparr>
                    in (case firstMatched of
                          None \<Rightarrow> Some st1
                        | Some i \<Rightarrow>
                            Some (openFaqItem i (st1\<lparr> scrollLog := scrollLog st1 @ [i] \<rparr>))))))"

text \<open>The body of the two closing loops of \<open>onSearch\<close>, for the entry at position \<open>i\<close>.\<close>

definition closeSearchOpened :: "nat \<Rightarrow> SearchState \<Rightarrow> SearchState" where
  "closeSearchOpened i st =
     (let st1 = (if isFaqItemOpen (faqItems st ! i) \<and> questionWrapper (faqItems st ! i)
                 then clickQuestionWrapper SearchController i st else st);
          st2 = updateItem i (\<lambda>els. els\<lparr> openedBySearchAttr := None \<rparr>) st1
      in st2\<lparr> searchOpenedItems := searchOpenedItems st2 - {i} \<rparr>)"

definition closeAll :: "SearchState \<Rightarrow> SearchState" where
  "closeAll st =
     fold (\<lambda>i s. if i \<in> searchOpenedItems s then closeSearchOpened i s else s)
       [0 ..< length (faqItems st)] st"

definition closeNonMatching :: "string \<Rightarrow> SearchState \<Rightarrow> SearchState" where
  "closeNonMatching q st =
     fold (\<lambda>i s. if i \<in> searchOpenedItems s \<and> \<not> itemMatchesQuery (faqItems s ! i) q
                  then closeSearchOpened i s else s)
       [0 ..< length (faqItems st)] st"

definition onSearch :: "string \<Rightarrow> SearchState \<Rightarrow> SearchState option" where
  "onSearch inputValue st =
     (if trim inputValue = []
      then Some (closeAll (st\<lparr> faqItems := map clearItem (faqItems st) \<rparr>))
      else findFirstMatchAndAct inputValue (closeNonMatching (normalizeText inputValue) st))"

text \<open>
  The events the controller reacts to: the user clicks the question header of an
  entry, or a (debounced) search runs with the value of the input.
\<close>

datatype event = UserClick nat | Search string

definition userClick :: "nat \<Rightarrow> SearchState \<Rightarrow> SearchState" where
  "userClick i st =
     (if i < length (faqItems st) \<and> questionWrapper (faqItems st ! i)
      then clickQuestionWrapper User i st else st)"

fun handleEvent :: "event \<Rightarrow> SearchState \<Rightarrow> SearchState option" where
  "handleEvent (UserClick i) st = Some (userClick i st)"
| "handleEvent (Search v) st = onSearch v st"

fun runEvents :: "event list \<Rightarrow> SearchState \<Rightarrow> SearchState option" where
  "runEvents [] st = Some st"
| "runEvents (e # es) st =
     (case handleEvent e st of None \<Rightarrow> None | Some st' \<Rightarrow> runEvents es st')"

text \<open>The state after \<open>init\<close>: the set is empty and nothing has happened yet.\<close>

definition initialState :: "FaqItemElements list \<Rightarrow> SearchState" where
  "initialState page =
     \<lparr> faqItems = page, searchOpenedItems = {}, clickLog = [], scrollLog = [] \<rparr>"

text \<open>Who dispatched the latest click on the question header of entry \<open>i\<close>.\<close>

definition lastClickBy :: "SearchState \<Rightarrow> nat \<Rightarrow> actor option" where
  "lastClickBy st i =
     (case filter (\<lambda>c. snd c = i) (clickLog st) of
        [] \<Rightarrow> None
      | cs \<Rightarrow> Some (fst (last cs)))"

text \<open>
  What the statements below compare: the flattened text of the two regions of an
  entry, and the part of an entry that is not a region.
\<close>

definition itemText :: "FaqItemElements \<Rightarrow> string option \<times> string option" where
  "itemText els =
     (map_option textContent (questionTitle els), map_option textContent (answer els))"

definition itemFlags :: "FaqItemElements \<Rightarrow> string option \<times> bool \<times> bool" where
  "itemFlags els = (openedBySearchAttr els, isFaqItemOpen els, questionWrapper els)"

text \<open>The clicks dispatched on the question header of entry \<open>i\<close>.\<close>

definition clicksOn :: "nat \<Rightarrow> SearchState \<Rightarrow> (actor \<times> nat) list" where
  "clicksOn i st = filter (\<lambda>c. snd c = i) (clickLog st)"

text \<open>
  The invariant of the set: each of its members is an entry with a question header
  that carries the marker and on which the controller itself has dispatched a click.
\<close>

definition searchOpenedInvariant :: "SearchState \<Rightarrow> bool" where
  "searchOpenedInvariant st =
     (\<forall>i \<in> searchOpenedItems st.
        i < length (faqItems st)
        \<and> questionWrapper (faqItems st ! i)
        \<and> openedBySearchAttr (faqItems st ! i) = Some ''true''
        \<and> (SearchController, i) \<in> set (clickLog st))"

text \<open>
  A notion for the proofs: how a state \<open>s\<close> reached by closing entries of the set
  relates to the state \<open>st\<close> before.
\<close>

definition closedFrom :: "SearchState \<Rightarrow> SearchState \<Rightarrow> bool" where
  "closedFrom st s =
     (length (faqItems s) = length (faqItems st)
      \<and> scrollLog s = scrollLog st
      \<and> searchOpenedItems s \<subseteq> searchOpenedItems st
      \<and> set (clickLog st) \<subseteq> set (clickLog s)
      \<and> (\<forall>j < length (faqItems st).
            questionTitle (faqItems s ! j) = questionTitle (faqItems st ! j)
            \<and> answer (faqItems s ! j) = answer (faqItems st ! j)
            \<and> questionWrapper (faqItems s ! j) = questionWrapper (faqItems st ! j))
      \<and> (\<forall>i. i \<notin> searchOpenedItems st \<longrightarrow>
            faqItems s ! i = faqItems st ! i \<and> clicksOn i s = clicksOn i st))"

text \<open>Two closed entries, about pricing and about licenses, for the examples.\<close>

definition pricingItem :: FaqItemElements where
  "pricingItem =
     \<lparr> openedBySearchAttr = None, isFaqItemOpen = False, questionWrapper = True,
       questionTitle = Some (Element ''h3'' [] [Text ''Pricing'']),
       answer = Some (Element ''div'' [(''class'', ''faq-item_rich-text'')]
                        [Element ''p'' [] [Text ''What does it cost?'']]) \<rparr>"

definition licenseItem :: FaqItemElements where
  "licenseItem =
     \<lparr> openedBySearchAttr = None, isFaqItemOpen = False, questionWrapper = True,
       questionTitle = Some (Element ''h3'' [] [Text ''License'']),
       answer = Some (Element ''div'' [(''class'', ''faq-item_rich-text'')]
                        [Element ''p'' [] [Text ''The cost of a license'']]) \<rparr>"

text \<open>The first entry as a page shows it that loads with this entry open.\<close>

definition openPricingItem :: FaqItemElements where
  "openPricingItem = pricingItem\<lparr> isFaqItemOpen := True \<rparr>"

section \<open>Properties of the numbers\<close>

lemma roundHalfEven_of_int: "roundHalfEven (of_int k) = k"
  by (simp add: roundHalfEven_def)

lemma pow2_nonpos: "e \<le> 0 \<Longrightarrow> pow2 e = 1 / 2 ^ nat (- e)"
  by (simp add: pow2_def)

text \<open>Every integer below \<open>2 ^ 53\<close> in magnitude is a double.\<close>

lemma toDouble_of_int_pos:
  assumes "0 < n" "n < 2 ^ 53"
  shows "toDouble (of_int n) = Finite (of_int n)"
proof -
  define L where "L = bitlen n - 1"
  have b: "bitlen n \<le> 53"
    using assms(2) by (simp add: bitlen_le_iff_power)
  have b1: "1 \<le> bitlen n"
    using assms(1) bitlen_eq_zero_iff [of n] bitlen_nonneg [of n] by linarith
  have fl: "floorLog2 (of_int n) = L"
    using assms(1) by (simp add: floorLog2_def L_def)
  define k where "k = nat (52 - L)"
  have e: "max (L - 52) (- 1074) = - int k"
    using b b1 by (simp add: k_def L_def)
  have p: "pow2 (- int k) = 1 / 2 ^ k"
    by (simp add: pow2_nonpos)
  have q: "(of_int n :: rat) / pow2 (- int k) = of_int (n * 2 ^ k)"
    by (simp add: p)
  have m: "roundHalfEven ((of_int n :: rat) / pow2 (- int k)) = n * 2 ^ k"
    unfolding q by (rule roundHalfEven_of_int)
  have bl: "bitlen (n * 2 ^ k) = bitlen n + int k"
    using assms(1) by simp
  have small: "\<not> 1024 < bitlen (n * 2 ^ k) + (- int k)"
    using b by (simp add: bl)
  have v: "sgn (of_int n :: rat) * of_int (n * 2 ^ k) * pow2 (- int k) = of_int n"
    using assms(1) by (simp add: p)
  have nz: "(of_int n :: rat) \<noteq> 0" "\<bar>of_int n :: rat\<bar> = of_int n"
    using assms(1) by simp_all
  show ?thesis
    unfolding toDouble_def Let_def nz(2) fl e m
    using nz(1) small v by simp
qed

lemma toDouble_neg: "toDouble (- x) = jsNeg (toDouble x)"
  by (simp add: toDouble_def Let_def)

lemma toDouble_of_int:
  assumes "\<bar>n\<bar> < 2 ^ 53"
  shows "toDouble (of_int n) = Finite (of_int n)"
proof -
  consider "n = 0" | "0 < n" | "n < 0" by linarith
  then show ?thesis
  proof cases
    case 1
    then show ?thesis by (simp add: toDouble_def)
  next
    case 2
    with assms show ?thesis by (simp add: toDouble_of_int_pos)
  next
    case 3
    with assms have "toDouble (of_int (- n)) = Finite (of_int (- n))"
      by (intro toDouble_of_int_pos) simp_all
    then have "jsNeg (toDouble (of_int n)) = Finite (- of_int n)"
      by (simp add: toDouble_neg)
    then show ?thesis
      by (cases "toDouble (of_int n)") simp_all
  qed
qed

text \<open>
  A number \<open>m * 2 ^ k\<close> with 53 significant bits in \<open>m\<close> is a double up to
  \<open>k = 971\<close>, and an infinity beyond.
\<close>

lemma toDouble_scaled:
  assumes "2 ^ 52 \<le> m" "m < 2 ^ 53"
  shows "toDouble (of_int m * 2 ^ k) =
           (if 971 < k then PosInfinity else Finite (of_int m * 2 ^ k))"
proof -
  have pos: "0 < m"
    using assms(1) by (rule less_le_trans [rotated]) simp
  have b: "bitlen m = 53"
  proof -
    have "bitlen m \<le> 53"
      using assms(2) by (simp add: bitlen_le_iff_power)
    moreover have "\<not> bitlen m \<le> 52"
      using assms(1) by (simp add: bitlen_le_iff_power)
    ultimately show ?thesis by linarith
  qed
  have a: "(of_int m :: rat) * 2 ^ k = of_int (m * 2 ^ k)"
    by simp
  have one: "(1 :: rat) \<le> of_int (m * 2 ^ k)"
  proof -
    have "1 * 1 \<le> m * 2 ^ k"
      by (rule mult_mono) (use pos in simp_all)
    then show ?thesis
      by (simp only: of_int_1_le_iff)
  qed
  have fl: "floorLog2 (of_int (m * 2 ^ k)) = 52 + int k"
  proof -
    have "floorLog2 (of_int (m * 2 ^ k)) = bitlen \<lfloor>(of_int (m * 2 ^ k) :: rat)\<rfloor> - 1"
      using one by (simp only: floorLog2_def if_True)
    also have "\<dots> = bitlen (m * 2 ^ k) - 1"
      by (simp only: floor_of_int)
    also have "bitlen (m * 2 ^ k) = bitlen m + int k"
      using pos by (rule bitlen_pow2)
    finally show ?thesis
      by (simp add: b)
  qed
  have e: "max (52 + int k - 52) (- 1074) = int k"
    by simp
  have p: "pow2 (int k) = 2 ^ k"
    by (simp add: pow2_def)
  have q: "(of_int (m * 2 ^ k) :: rat) / pow2 (int k) = of_int m"
    by (simp add: p)
  have r: "roundHalfEven ((of_int (m * 2 ^ k) :: rat) / pow2 (int k)) = m"
    unfolding q by (rule roundHalfEven_of_int)
  have nz3: "(0 :: rat) < of_int (m * 2 ^ k)"
    using one by (rule less_le_trans [rotated]) simp
  have nz: "(of_int (m * 2 ^ k) :: rat) \<noteq> 0" "\<bar>of_int (m * 2 ^ k) :: rat\<bar> = of_int (m * 2 ^ k)"
    "(0 :: rat) < of_int (m * 2 ^ k)"
    using nz3 by (simp_all only: abs_of_pos less_imp_neq [THEN not_sym] simp_thms)
  have v: "sgn (of_int (m * 2 ^ k) :: rat) * of_int m * pow2 (int k) = of_int (m * 2 ^ k)"
    using nz(3) by (simp add: p)
  show ?thesis
    unfolding a toDouble_def Let_def nz(2) fl e r b
    using nz(1) nz(3) v by simp
qed

lemma pow2_powi: "pow2 e = 2 powi e"
  by (simp add: pow2_def power_int_def power_one_over inverse_eq_divide)

lemma pow2_pos: "0 < pow2 e"
  by (simp add: pow2_powi)

lemma pow2_add: "pow2 (i + j) = pow2 i * pow2 j"
  by (simp add: pow2_powi power_int_add)

lemma pow2_nat: "pow2 (int k) = 2 ^ k"
  by (simp add: pow2_def)

lemma pow2_mono: "i \<le> j \<Longrightarrow> pow2 i \<le> pow2 j"
  by (simp add: pow2_powi power_int_increasing)

lemma pow2_strict_mono: "i < j \<Longrightarrow> pow2 i < pow2 j"
  by (simp add: pow2_powi power_int_strict_increasing)

lemma pow2_less_cancel: "pow2 i < pow2 j \<Longrightarrow> i < j"
  using pow2_mono [of j i] by (cases "i < j") auto

lemma floorLog2_bounds:
  assumes "0 < a"
  shows "pow2 (floorLog2 a) \<le> a" and "a < pow2 (floorLog2 a + 1)"
proof -
  have "pow2 (floorLog2 a) \<le> a \<and> a < pow2 (floorLog2 a + 1)"
  proof (cases "1 \<le> a")
    case True
    define n where "n = \<lfloor>a\<rfloor>"
    have n1: "1 \<le> n"
      using True by (simp add: n_def le_floor_iff)
    then have npos: "0 < n" by simp
    from bitlen_bounds [OF npos]
    have lo: "2 ^ nat (bitlen n - 1) \<le> n" and hi: "n < 2 ^ nat (bitlen n)"
      by simp_all
    have b1: "1 \<le> bitlen n"
      using npos bitlen_eq_zero_iff [of n] bitlen_nonneg [of n] by linarith
    have f: "floorLog2 a = bitlen n - 1"
      using True by (simp add: floorLog2_def n_def)
    have p1: "pow2 (bitlen n - 1) = 2 ^ nat (bitlen n - 1)"
      using b1 by (simp add: pow2_def)
    have p2: "pow2 (bitlen n) = 2 ^ nat (bitlen n)"
      using b1 by (simp add: pow2_def)
    have "(of_int (2 ^ nat (bitlen n - 1)) :: rat) \<le> of_int n"
      using lo by (simp only: of_int_le_iff)
    also have "(of_int n :: rat) \<le> a"
      by (simp add: n_def)
    finally have l: "pow2 (bitlen n - 1) \<le> a"
      by (simp add: p1)
    have "n + 1 \<le> 2 ^ nat (bitlen n)"
      using hi by simp
    then have "(of_int (n + 1) :: rat) \<le> of_int (2 ^ nat (bitlen n))"
      by (simp only: of_int_le_iff)
    moreover have "a < of_int (n + 1)"
      using floor_correct [of a] by (simp add: n_def)
    ultimately have "a < of_int (2 ^ nat (bitlen n))"
      by (rule less_le_trans [rotated])
    then have "a < pow2 (bitlen n)"
      by (simp add: p2)
    then have u: "a < pow2 (bitlen n - 1 + 1)"
      by simp
    from l u show ?thesis
      by (simp only: f)
  next
    case False
    then have a1: "a < 1" by simp
    define c where "c = \<lceil>1 / a\<rceil>"
    define d where "d = c - 1"
    have inv: "1 < 1 / a"
      using assms a1 by (simp add: field_simps)
    have c2: "2 \<le> c"
      using inv by (simp add: c_def le_ceiling_iff) 
    then have dpos: "0 < d" by (simp add: d_def)
    from bitlen_bounds [OF dpos]
    have lo: "2 ^ nat (bitlen d - 1) \<le> d" and hi: "d < 2 ^ nat (bitlen d)"
      by simp_all
    have b1: "1 \<le> bitlen d"
      using dpos bitlen_eq_zero_iff [of d] bitlen_nonneg [of d] by linarith
    have f: "floorLog2 a = - bitlen d"
      using False by (simp add: floorLog2_def c_def d_def)
    have p1: "pow2 (- bitlen d) = 1 / 2 ^ nat (bitlen d)"
      using b1 by (simp add: pow2_def)
    have p2: "pow2 (1 - bitlen d) = 1 / 2 ^ nat (bitlen d - 1)"
      using b1 by (simp add: pow2_def)
    have cd: "1 / a \<le> of_int c" "of_int d < 1 / a"
      using ceiling_correct [of "1 / a"] by (simp_all add: c_def d_def)
    have "c \<le> 2 ^ nat (bitlen d)"
      using hi by (simp add: d_def)
    then have "(of_int c :: rat) \<le> of_int (2 ^ nat (bitlen d))"
      by (simp only: of_int_le_iff)
    with cd(1) have "1 / a \<le> of_int (2 ^ nat (bitlen d))"
      by (rule order_trans)
    then have "1 / a \<le> 2 ^ nat (bitlen d)"
      by simp
    then have l: "pow2 (- bitlen d) \<le> a"
      using assms by (simp add: p1 field_simps)
    have "(of_int (2 ^ nat (bitlen d - 1)) :: rat) \<le> of_int d"
      using lo by (simp only: of_int_le_iff)
    from this cd(2) have "(of_int (2 ^ nat (bitlen d - 1)) :: rat) < 1 / a"
      by (rule le_less_trans)
    then have "2 ^ nat (bitlen d - 1) < 1 / a"
      by simp
    then have "a < pow2 (1 - bitlen d)"
      using assms by (simp add: p2 field_simps)
    then have u: "a < pow2 (- bitlen d + 1)"
      by simp
    from l u show ?thesis
      by (simp only: f)
  qed
  then show "pow2 (floorLog2 a) \<le> a" and "a < pow2 (floorLog2 a + 1)"
    by simp_all
qed

lemma floorLog2_unique:
  assumes "0 < a" "pow2 k \<le> a" "a < pow2 (k + 1)"
  shows "floorLog2 a = k"
proof -
  from floorLog2_bounds [OF assms(1)] assms(2,3)
  have "pow2 (floorLog2 a) < pow2 (k + 1)" "pow2 k < pow2 (floorLog2 a + 1)"
    by simp_all
  then have "floorLog2 a < k + 1" "k < floorLog2 a + 1"
    by (simp_all only: pow2_less_cancel)
  then show ?thesis by simp
qed

lemma floorLog2_scaled:
  assumes "0 < n"
  shows "floorLog2 (of_int n * pow2 e) = bitlen n - 1 + e"
proof (rule floorLog2_unique)
  from bitlen_bounds [OF assms]
  have lo: "2 ^ nat (bitlen n - 1) \<le> n" and hi: "n < 2 ^ nat (bitlen n)"
    by simp_all
  have b1: "1 \<le> bitlen n"
    using assms bitlen_eq_zero_iff [of n] bitlen_nonneg [of n] by linarith
  show "(0 :: rat) < of_int n * pow2 e"
    using assms pow2_pos [of e] by simp
  have "(of_int (2 ^ nat (bitlen n - 1)) :: rat) \<le> of_int n"
    using lo by (simp only: of_int_le_iff)
  then have "pow2 (bitlen n - 1) \<le> of_int n"
    using b1 by (simp add: pow2_def)
  then show "pow2 (bitlen n - 1 + e) \<le> of_int n * pow2 e"
    using pow2_pos [of e] by (simp add: pow2_add)
  have "(of_int n :: rat) < of_int (2 ^ nat (bitlen n))"
    using hi by (simp only: of_int_less_iff)
  then have "of_int n < pow2 (bitlen n)"
    using b1 by (simp add: pow2_def)
  then have "of_int n * pow2 e < pow2 (bitlen n) * pow2 e"
    using pow2_pos [of e] by simp
  then show "of_int n * pow2 e < pow2 (bitlen n - 1 + e + 1)"
    by (simp add: pow2_add [symmetric])
qed

text \<open>Every double is left as it is.\<close>

lemma toDouble_exact_pos:
  assumes "0 < n" "bitlen n \<le> 53" "- 1074 \<le> e" "bitlen n + e \<le> 1024"
  shows "toDouble (of_int n * pow2 e) = Finite (of_int n * pow2 e)"
proof -
  define a :: rat where "a = of_int n * pow2 e"
  have pos: "0 < a"
    using assms(1) pow2_pos [of e] by (simp add: a_def)
  have fl: "floorLog2 a = bitlen n - 1 + e"
    unfolding a_def by (rule floorLog2_scaled [OF assms(1)])
  define e' where "e' = max (bitlen n - 1 + e - 52) (- 1074)"
  have le: "e' \<le> e"
    using assms(2,3) by (simp add: e'_def)
  define k where "k = nat (e - e')"
  have ek: "e = e' + int k"
    using le by (simp add: k_def)
  have pe: "pow2 e = pow2 e' * 2 ^ k"
    unfolding ek by (simp add: pow2_add pow2_nat)
  have q: "a / pow2 e' = of_int (n * 2 ^ k)"
    using pow2_pos [of e'] by (simp add: a_def pe)
  have r: "roundHalfEven (a / pow2 e') = n * 2 ^ k"
    unfolding q by (rule roundHalfEven_of_int)
  have bl: "bitlen (n * 2 ^ k) = bitlen n + int k"
    using assms(1) by simp
  have small: "\<not> 1024 < bitlen (n * 2 ^ k) + e'"
    using assms(4) by (simp add: bl ek)
  have v: "sgn a * of_int (n * 2 ^ k) * pow2 e' = a"
    using pos by (simp add: a_def pe)
  have nz: "a \<noteq> 0" "\<bar>a\<bar> = a"
    using pos by simp_all
  have "toDouble a = Finite a"
    unfolding toDouble_def Let_def nz(2) fl e'_def [symmetric] r
    using nz(1) small v by simp
  then show ?thesis
    by (simp only: a_def)
qed

lemma roundHalfEven_nonneg: "0 \<le> r \<Longrightarrow> 0 \<le> roundHalfEven r"
  by (simp add: roundHalfEven_def Let_def)

lemma roundHalfEven_le: "roundHalfEven r \<le> \<lfloor>r\<rfloor> + 1"
  by (simp add: roundHalfEven_def Let_def)

lemma toDouble_idem_pos:
  assumes "0 < x" "toDouble x = Finite v"
  shows "toDouble v = Finite v"
proof -
  define e where "e = max (floorLog2 x - 52) (- 1074)"
  define m where "m = roundHalfEven (x / pow2 e)"
  have nz: "x \<noteq> 0" "\<bar>x\<bar> = x" "sgn x = 1"
    using assms(1) by simp_all
  from assms(2) have small: "\<not> 1024 < bitlen m + e" and v: "v = of_int m * pow2 e"
    unfolding toDouble_def Let_def nz(2) e_def [symmetric] m_def [symmetric]
    using nz(1,3) by (auto split: if_splits)
  have e1: "- 1074 \<le> e" and e2: "floorLog2 x + 1 \<le> e + 53"
    by (simp_all add: e_def)
  have "x < pow2 (floorLog2 x + 1)"
    by (rule floorLog2_bounds(2) [OF assms(1)])
  also have "\<dots> \<le> pow2 (e + 53)"
    by (rule pow2_mono [OF e2])
  also have "\<dots> = pow2 e * 2 ^ 53"
    using pow2_nat [of 53] by (simp add: pow2_add)
  finally have "x / pow2 e < 2 ^ 53"
    using pow2_pos [of e] by (simp add: field_simps)
  then have "\<lfloor>x / pow2 e\<rfloor> < 2 ^ 53"
    by (simp add: floor_less_iff)
  with roundHalfEven_le [of "x / pow2 e"] have "roundHalfEven (x / pow2 e) \<le> 2 ^ 53"
    by linarith
  then have mle: "m \<le> 2 ^ 53"
    by (simp only: m_def)
  have "0 \<le> x / pow2 e"
    using assms(1) pow2_pos [of e] by simp
  then have m0: "0 \<le> m"
    unfolding m_def by (rule roundHalfEven_nonneg)
  consider "m = 0" | "0 < m" "m < 2 ^ 53" | "m = 2 ^ 53"
    using m0 mle by linarith
  then show ?thesis
  proof cases
    case 1
    then show ?thesis by (simp add: v toDouble_def)
  next
    case 2
    then have "bitlen m \<le> 53"
      by (simp add: bitlen_le_iff_power)
    with 2 e1 small show ?thesis
      unfolding v by (intro toDouble_exact_pos) simp_all
  next
    case 3
    have b: "bitlen m = 54"
      unfolding 3 using bitlen_pow2 [of 1 53] by (simp add: bitlen_def floorlog_def)
    have "v = of_int (2 ^ 52) * pow2 (e + 1)"
      using pow2_nat [of 1] by (simp add: v 3 pow2_add)
    moreover have "toDouble (of_int (2 ^ 52) * pow2 (e + 1)) = Finite (of_int (2 ^ 52) * pow2 (e + 1))"
    proof (rule toDouble_exact_pos)
      have b52: "bitlen (2 ^ 52) = 53"
        using bitlen_pow2 [of 1 52] by (simp add: bitlen_def floorlog_def)
      show "(0 :: int) < 2 ^ 52" by simp
      show "bitlen (2 ^ 52) \<le> 53" unfolding b52 by simp
      show "- 1074 \<le> e + 1" using e1 by simp
      show "bitlen (2 ^ 52) + (e + 1) \<le> 1024" using small b unfolding b52 by simp
    qed
    ultimately show ?thesis by simp
  qed
qed

lemma toDouble_idem:
  assumes "toDouble x = Finite v"
  shows "toDouble v = Finite v"
proof -
  consider "x = 0" | "0 < x" | "x < 0" by linarith
  then show ?thesis
  proof cases
    case 1
    with assms show ?thesis by (simp add: toDouble_def)
  next
    case 2
    from toDouble_idem_pos [OF 2 assms] show ?thesis .
  next
    case 3
    then have p: "0 < - x" by simp
    from assms have "toDouble (- x) = Finite (- v)"
      by (simp add: toDouble_neg)
    from toDouble_idem_pos [OF p this] have "toDouble (- v) = Finite (- v)" .
    then have "jsNeg (toDouble v) = Finite (- v)"
      by (simp add: toDouble_neg)
    then show ?thesis
      by (cases "toDouble v") simp_all
  qed
qed

lemma Math_round_whole: "Math_round x = Finite v \<Longrightarrow> v \<in> \<int>"
  by (cases x) auto

lemma Math_round_isFinite: "Number_isFinite (Math_round x) = Number_isFinite x"
  by (cases x) simp_all

section \<open>Properties of the cost model\<close>

lemmas cost_defs =
  calculateCosts_def buildTotal_def buildInitialDevelopment_def
  buildOngoingMaintenance_def buildSecurityAndCompliance_def buildOpportunityCost_def
  buildTransitionOneTime_def buildMaintenanceExisting_def saasMigrationCost_def
  saasUserLicensing_def saasIntegrationWorkBase_def saasIntegrationWork_def
  saasOngoingSupport_def saasTotal_def fusLicensing_def fusIntegration_def
  fusMaintenance_def fusTotal_def overheadMultiplier_def

text \<open>
  The rounding of doubles shows in the results. For 81 users and two and a half
  years the product \<open>81 * 0.05 * 12 * 2.5\<close> is a double just below 121.5, and the
  licensing is 121, where the product of the decimal numbers would give 122.
\<close>

lemma user_licensing_product:
  "Finite 81 * toDouble (5 / 100) * Finite 12 * Finite (5 / 2)
     = Finite (8549802417586175 / 70368744177664)"
  by code_simp

lemma user_licensing_rounds_double:
  "saasUserLicensing smallVolumeState = Finite 121"
  "\<lfloor>(81 :: rat) * (5 / 100) * 12 * (5 / 2) + 1 / 2\<rfloor> = 122"
proof -
  have u: "toDouble 81 = Finite 81"
    using toDouble_of_int [of 81] by simp
  have t: "toDouble (5 / 2) = Finite (5 / 2)"
    by code_simp
  have f: "\<lfloor>(8549802417586175 / 70368744177664 :: rat) + 1 / 2\<rfloor> = 121"
    by code_simp
  have v: "users smallVolumeState = 81" "timeline smallVolumeState = 5 / 2"
    by (simp_all add: smallVolumeState_def)
  show "saasUserLicensing smallVolumeState = Finite 121"
    unfolding saasUserLicensing_def v u t user_licensing_product Math_round.simps f
    by simp
  show "\<lfloor>(81 :: rat) * (5 / 100) * 12 * (5 / 2) + 1 / 2\<rfloor> = 122"
    by code_simp
qed

text \<open>
  For a timeline of 0.3 years and a salary of 60000 the quotient of the maintenance
  formula is the double 1012.5, and the maintenance is 1013.
\<close>

lemma maintenance_rounds_double:
  "(toDouble (3 / 10) * Finite 78 * (Finite 60000 * Finite (3 / 2))) / Finite 2080
     = Finite (2025 / 2)"
  "Math_round ((toDouble (3 / 10) * Finite 78 * (Finite 60000 * Finite (3 / 2))) / Finite 2080)
     = Finite 1013"
  by code_simp+

text \<open>A product that is too large for a double is an infinity.\<close>

lemma initial_development_overflow: "buildInitialDevelopment hugeState = PosInfinity"
proof -
  have i: "(2 :: rat) ^ 600 = of_int 4503599627370496 * 2 ^ 548"
    by simp
  have s: "(2 :: rat) ^ 600 * (3 / 2) = of_int 6755399441055744 * 2 ^ 548"
    by simp
  have e: "(2 :: rat) ^ 600 * (of_int 6755399441055744 * 2 ^ 548)
             = of_int 6755399441055744 * 2 ^ 1148"
    by simp
  have d: "toDouble (2 ^ 600) = Finite (2 ^ 600)"
    by (subst (1 2) i, subst toDouble_scaled) simp_all
  have "Finite (2 ^ 600) * overheadMultiplier = Finite (of_int 6755399441055744 * 2 ^ 548)"
    unfolding overheadMultiplier_def times_jsnum_def jsMul.simps s
    by (subst toDouble_scaled) simp_all
  moreover have "Finite (2 ^ 600) * Finite (of_int 6755399441055744 * 2 ^ 548) = PosInfinity"
    unfolding times_jsnum_def jsMul.simps e
    by (subst toDouble_scaled) simp_all
  ultimately have
    "Finite (2 ^ 600) * (Finite (2 ^ 600) * overheadMultiplier) * Finite (1 / 2) = PosInfinity"
    by (simp add: times_jsnum_def signedInfinity_def)
  moreover have "engineers hugeState = 2 ^ 600" "salary hugeState = 2 ^ 600"
    by (simp_all add: hugeState_def)
  ultimately show ?thesis
    unfolding buildInitialDevelopment_def d
    by (simp only: d Math_round.simps)
qed

text \<open>
  Without an existing system the build total is the sum of the four components, each
  the rounded value of its formula; the other totals are the sums of their
  components.
\<close>

lemma build_total_no_auth:
  assumes "\<not> hasExistingAuth state"
  shows "build_total (build (calculateCosts state)) =
           build_initialDevelopment (build (calculateCosts state))
           + build_ongoingMaintenance (build (calculateCosts state))
           + build_securityAndCompliance (build (calculateCosts state))
           + build_opportunityCost (build (calculateCosts state))"
    and "build_initialDevelopment (build (calculateCosts state)) =
           Math_round (toDouble (engineers state) * (toDouble (salary state) * Finite (3 / 2))
                       * Finite (1 / 2))"
    and "build_ongoingMaintenance (build (calculateCosts state)) =
           Math_round ((toDouble (timeline state) * Finite 78
                        * (toDouble (salary state) * Finite (3 / 2))) / Finite 2080)"
    and "build_securityAndCompliance (build (calculateCosts state)) =
           Math_round (toDouble (timeline state) * Finite 80000)"
    and "build_opportunityCost (build (calculateCosts state)) =
           Math_round (toDouble (timeline state) * Finite 6120)"
  using assms by (simp_all add: cost_defs)

lemma saas_total_sum:
  "saas_total (saas (calculateCosts state)) =
     saas_userLicensing (saas (calculateCosts state))
     + saas_integrationWork (saas (calculateCosts state))
     + saas_ongoingSupport (saas (calculateCosts state))"
  by (simp add: calculateCosts_def saasTotal_def)

lemma fus_total_sum:
  "fus_total (fusionauth (calculateCosts state)) =
     fus_licensing (fusionauth (calculateCosts state))
     + fus_integration (fusionauth (calculateCosts state))
     + fus_maintenance (fusionauth (calculateCosts state))"
  by (simp add: calculateCosts_def fusTotal_def)

lemma scenario_initial_development_value:
  "Math_round (Finite 3 * (Finite 150000 * Finite (3 / 2)) * Finite (1 / 2)) = Finite 337500"
  by code_simp

lemma scenario_initial_development:
  assumes "engineers state = 3" "salary state = 150000" "\<not> hasExistingAuth state"
  shows "build_initialDevelopment (build (calculateCosts state)) = Finite 337500"
proof -
  have d: "toDouble 3 = Finite 3" "toDouble 150000 = Finite 150000"
    using toDouble_of_int [of 3] toDouble_of_int [of 150000] by simp_all
  show ?thesis
    using assms scenario_initial_development_value
    by (simp add: calculateCosts_def buildInitialDevelopment_def overheadMultiplier_def d)
qed

lemma whole_timeline_maintenance:
  assumes "\<bar>n\<bar> \<le> 10 ^ 9"
  shows "Finite 85000 * toDouble (of_int n) = Finite (85000 * of_int n)"
    and "Finite 50000 + Finite 85000 * toDouble (of_int n) = Finite (50000 + 85000 * of_int n)"
proof -
  have a: "\<bar>n\<bar> < 2 ^ 53" "\<bar>85000 * n\<bar> < 2 ^ 53" "\<bar>50000 + 85000 * n\<bar> < 2 ^ 53"
    using assms by simp_all
  have m: "(85000 :: rat) * of_int n = of_int (85000 * n)"
    by simp
  have t: "(50000 :: rat) + of_int (85000 * n) = of_int (50000 + 85000 * n)"
    by simp
  show p: "Finite 85000 * toDouble (of_int n) = Finite (85000 * of_int n)"
    unfolding toDouble_of_int [OF a(1)] times_jsnum_def jsMul.simps m
    by (rule toDouble_of_int [OF a(2)])
  show "Finite 50000 + Finite 85000 * toDouble (of_int n) = Finite (50000 + 85000 * of_int n)"
    unfolding p unfolding plus_jsnum_def jsAdd.simps m t by (rule toDouble_of_int [OF a(3)])
qed

text \<open>
  C3, as the code has it. With \<open>hasExistingAuth\<close> the build total is the transition
  fee 50000 plus 85000 times the timeline, computed as the source does, on doubles;
  for a timeline of a whole number of years (up to a thousand million) that is the
  number \<open>50000 + 85000 * timeline\<close> itself. Security-and-compliance and opportunity
  cost are reported as zero. The initial-development field is not zero: it reports
  the transition fee, as the one-time-transition field does, and the maintenance
  field reports 85000 times the timeline.
\<close>

theorem existing_auth_build_breakdown:
  assumes "hasExistingAuth state"
  shows "build_total (build (calculateCosts state))
           = Finite 50000 + Finite 85000 * toDouble (timeline state)
       \<and> build_securityAndCompliance (build (calculateCosts state)) = Finite 0
       \<and> build_opportunityCost (build (calculateCosts state)) = Finite 0
       \<and> build_initialDevelopment (build (calculateCosts state)) = Finite 50000
       \<and> build_oneTimeTransition (build (calculateCosts state)) = Finite 50000
       \<and> build_ongoingMaintenance (build (calculateCosts state))
           = Finite 85000 * toDouble (timeline state)
       \<and> (\<forall>n. timeline state = of_int n \<and> \<bar>n\<bar> \<le> 10 ^ 9 \<longrightarrow>
            build_total (build (calculateCosts state)) = Finite (50000 + 85000 * timeline state)
          \<and> build_ongoingMaintenance (build (calculateCosts state))
              = Finite (85000 * timeline state))"
proof -
  have a: "build_total (build (calculateCosts state))
           = Finite 50000 + Finite 85000 * toDouble (timeline state)"
    "build_ongoingMaintenance (build (calculateCosts state))
           = Finite 85000 * toDouble (timeline state)"
    using assms
    by (simp_all add: calculateCosts_def buildTotal_def buildTransitionOneTime_def
        buildMaintenanceExisting_def)
  have b: "build_securityAndCompliance (build (calculateCosts state)) = Finite 0"
    "build_opportunityCost (build (calculateCosts state)) = Finite 0"
    "build_initialDevelopment (build (calculateCosts state)) = Finite 50000"
    "build_oneTimeTransition (build (calculateCosts state)) = Finite 50000"
    using assms by (simp_all add: calculateCosts_def buildTransitionOneTime_def)
  have c: "\<forall>n. timeline state = of_int n \<and> \<bar>n\<bar> \<le> 10 ^ 9 \<longrightarrow>
            build_total (build (calculateCosts state)) = Finite (50000 + 85000 * timeline state)
          \<and> build_ongoingMaintenance (build (calculateCosts state))
              = Finite (85000 * timeline state)"
    using a whole_timeline_maintenance by metis
  from a b c show ?thesis
    by blast
qed

theorem existing_auth_build_breakdown_witness:
  "hasExistingAuth (scenarioState True)
   \<and> timeline (scenarioState True) = of_int 3 \<and> \<bar>3 :: int\<bar> \<le> 10 ^ 9
   \<and> build_total (build (calculateCosts (scenarioState True))) = Finite 305000
   \<and> build_initialDevelopment (build (calculateCosts (scenarioState True))) = Finite 50000"
proof -
  have h: "hasExistingAuth (scenarioState True)"
    by (simp add: scenarioState_def)
  have t: "timeline (scenarioState True) = of_int 3" "\<bar>3 :: int\<bar> \<le> 10 ^ 9"
    by (simp_all add: scenarioState_def)
  from existing_auth_build_breakdown [OF h] t
  have "build_total (build (calculateCosts (scenarioState True)))
          = Finite (50000 + 85000 * timeline (scenarioState True))"
    "build_initialDevelopment (build (calculateCosts (scenarioState True))) = Finite 50000"
    by blast+
  with h t show ?thesis
    by simp
qed

text \<open>
  C3 as stated fails: in the scenario of the specification with an existing system,
  the initial-development field is 50000, not zero.
\<close>

theorem existing_auth_initial_development_counterexample:
  "hasExistingAuth (scenarioState True)
   \<and> build_initialDevelopment (build (calculateCosts (scenarioState True))) = Finite 50000
   \<and> build_initialDevelopment (build (calculateCosts (scenarioState True))) \<noteq> Finite 0"
  by (simp add: scenarioState_def calculateCosts_def buildTransitionOneTime_def)

lemma fractional_timeline_values:
  "toDouble (1 / 16) = Finite (1 / 16)"
  "Finite 85000 * Finite (1 / 16) = Finite (10625 / 2)"
  "Finite 50000 + Finite (10625 / 2) = Finite (110625 / 2)"
  "Math_round (Finite (1 / 16) * Finite 80000) = Finite 5000"
  "Math_round (Finite (1 / 16) * Finite 6120) = Finite 383"
  by code_simp+

text \<open>
  C4 at the failing input: an existing system and a timeline of one sixteenth of a
  year. The maintenance term \<open>85000 * timeline\<close> is not passed through
  \<open>Math.round\<close>, as its siblings \<open>timeline * 80000\<close> and \<open>timeline * 6120\<close> are: the
  maintenance field is 5312.5 and the build total 55312.5, neither a whole number
  (rounded they would be 5313 and 55313), while the sibling terms of the same state
  are the whole numbers 5000 and 383.
\<close>

theorem existing_auth_maintenance_not_rounded:
  "hasExistingAuth fractionalState
   \<and> timeline fractionalState = 1 / 16
   \<and> build_ongoingMaintenance (build (calculateCosts fractionalState)) = Finite (10625 / 2)
   \<and> Math_round (build_ongoingMaintenance (build (calculateCosts fractionalState)))
       = Finite 5313
   \<and> build_total (build (calculateCosts fractionalState)) = Finite (110625 / 2)
   \<and> Math_round (build_total (build (calculateCosts fractionalState))) = Finite 55313
   \<and> buildSecurityAndCompliance fractionalState = Finite 5000
   \<and> buildOpportunityCost fractionalState = Finite 383"
proof -
  have t: "hasExistingAuth fractionalState" "timeline fractionalState = 1 / 16"
    by (simp_all add: fractionalState_def)
  have m: "build_ongoingMaintenance (build (calculateCosts fractionalState))
             = Finite (10625 / 2)"
    by (simp add: calculateCosts_def buildMaintenanceExisting_def t
        fractional_timeline_values(1,2))
  have b: "build_total (build (calculateCosts fractionalState)) = Finite (110625 / 2)"
    by (simp add: calculateCosts_def buildTotal_def buildTransitionOneTime_def
        buildMaintenanceExisting_def t fractional_timeline_values(1,2,3))
  have r: "Math_round (Finite (10625 / 2)) = Finite 5313"
    "Math_round (Finite (110625 / 2)) = Finite 55313"
    by simp_all
  have s: "buildSecurityAndCompliance fractionalState = Finite 5000"
    "buildOpportunityCost fractionalState = Finite 383"
    by (simp_all add: buildSecurityAndCompliance_def buildOpportunityCost_def t
        fractional_timeline_values(1,4,5))
  show ?thesis
    unfolding m b r using t s by simp
qed

section \<open>Properties of the input reading\<close>

lemma queryNumberInput_fallback:
  assumes "noFiniteValue toNumber doc selector"
  shows "queryNumberInput toNumber doc selector fallback = fallback"
  using assms
  by (auto simp: noFiniteValue_def queryNumberInput_def Let_def split: option.splits)

lemma queryNumberInput_finite:
  assumes "doc selector = Some el" "toNumber (el_value el) = Finite v"
  shows "queryNumberInput toNumber doc selector fallback = Finite v"
  using assms by (simp add: queryNumberInput_def)

lemma queryNumberInput_isFinite:
  assumes "Number_isFinite fallback"
  shows "Number_isFinite (queryNumberInput toNumber doc selector fallback)"
  using assms by (simp add: queryNumberInput_def Let_def split: option.splits)

lemma queryBooleanInput_missing:
  assumes "doc selector = None"
  shows "queryBooleanInput doc selector fallback = fallback"
  using assms by (simp add: queryBooleanInput_def)

lemma finiteValue_isFinite: "Number_isFinite v \<Longrightarrow> \<exists>r. finiteValue v = Some r"
  by (cases v) simp_all

lemma readState_isFinite:
  "Number_isFinite (engineers (readState toNumber doc))"
  "Number_isFinite (salary (readState toNumber doc))"
  "Number_isFinite (users (readState toNumber doc))"
  "Number_isFinite (timeline (readState toNumber doc))"
  by (simp_all add: readState_def queryNumberInput_isFinite)

lemma costModelInput_readState: "\<exists>state. costModelInput (readState toNumber doc) = Some state"
proof -
  obtain e where e: "finiteValue (engineers (readState toNumber doc)) = Some e"
    using finiteValue_isFinite [OF readState_isFinite(1)] by blast
  obtain s where s: "finiteValue (salary (readState toNumber doc)) = Some s"
    using finiteValue_isFinite [OF readState_isFinite(2)] by blast
  obtain u where u: "finiteValue (users (readState toNumber doc)) = Some u"
    using finiteValue_isFinite [OF readState_isFinite(3)] by blast
  obtain t where t: "finiteValue (timeline (readState toNumber doc)) = Some t"
    using finiteValue_isFinite [OF readState_isFinite(4)] by blast
  show ?thesis
    by (simp add: costModelInput_def e s u t)
qed

text \<open>
  C9, as the code has it. A numeric field of the state takes its fixed default
  (3 engineers, 150000 salary, 10000 users, 3 years) when its input is missing or its
  value converts to a number that is not finite, and the flag is false when the
  checkbox is missing; so every number of the state is finite and the cost model is
  given finite numbers only. A value that converts to a finite number is passed on
  as it is: no range is checked.
\<close>

theorem readState_defaults_and_pass_through:
  "(noFiniteValue toNumber doc sel_engineers \<longrightarrow>
      engineers (readState toNumber doc) = Finite 3)
   \<and> (noFiniteValue toNumber doc sel_salary \<longrightarrow>
      salary (readState toNumber doc) = Finite 150000)
   \<and> (noFiniteValue toNumber doc sel_volume \<longrightarrow>
      users (readState toNumber doc) = Finite 10000)
   \<and> (noFiniteValue toNumber doc sel_timeline \<longrightarrow>
      timeline (readState toNumber doc) = Finite 3)
   \<and> (doc sel_auth = None \<longrightarrow> \<not> hasExistingAuth (readState toNumber doc))
   \<and> Number_isFinite (engineers (readState toNumber doc))
   \<and> Number_isFinite (salary (readState toNumber doc))
   \<and> Number_isFinite (users (readState toNumber doc))
   \<and> Number_isFinite (timeline (readState toNumber doc))
   \<and> (\<exists>costs. recalcCosts toNumber doc = Some costs)
   \<and> (\<forall>el v. doc sel_engineers = Some el \<and> toNumber (el_value el) = Finite v \<longrightarrow>
          engineers (readState toNumber doc) = Finite v)
   \<and> (\<forall>el v. doc sel_salary = Some el \<and> toNumber (el_value el) = Finite v \<longrightarrow>
          salary (readState toNumber doc) = Finite v)
   \<and> (\<forall>el v. doc sel_volume = Some el \<and> toNumber (el_value el) = Finite v \<longrightarrow>
          users (readState toNumber doc) = Finite v)
   \<and> (\<forall>el v. doc sel_timeline = Some el \<and> toNumber (el_value el) = Finite v \<longrightarrow>
          timeline (readState toNumber doc) = Finite v)"
proof -
  have "\<exists>costs. recalcCosts toNumber doc = Some costs"
    using costModelInput_readState [of toNumber doc] by (auto simp: recalcCosts_def)
  then show ?thesis
    using readState_isFinite [of toNumber doc]
    by (simp add: readState_def queryNumberInput_fallback queryNumberInput_finite
        queryBooleanInput_missing)
qed

lemma decimalNumber_abc: "decimalNumber ''abc'' = NaN"
  by code_simp

lemma decimalNumber_minus_five: "decimalNumber ''-5'' = Finite (- 5)"
  by code_simp

lemma decimalNumber_one: "decimalNumber ''1'' = Finite 1"
  by code_simp

lemma notANumberDoc_noFiniteValue:
  "noFiniteValue decimalNumber notANumberDoc sel_engineers"
  "noFiniteValue decimalNumber notANumberDoc sel_salary"
  "noFiniteValue decimalNumber notANumberDoc sel_volume"
  "noFiniteValue decimalNumber notANumberDoc sel_timeline"
  by (simp_all add: noFiniteValue_def notANumberDoc_def decimalNumber_abc
      sel_engineers_def sel_salary_def sel_volume_def sel_timeline_def sel_auth_def)

theorem readState_defaults_and_pass_through_witness:
  "noFiniteValue decimalNumber notANumberDoc sel_engineers
   \<and> noFiniteValue decimalNumber notANumberDoc sel_salary
   \<and> noFiniteValue decimalNumber notANumberDoc sel_volume
   \<and> noFiniteValue decimalNumber notANumberDoc sel_timeline
   \<and> notANumberDoc sel_auth = None
   \<and> readState decimalNumber notANumberDoc = defaultState
   \<and> negativeEngineersDoc sel_engineers
       = Some \<lparr> el_value = ''-5'', el_min = ''1'', el_max = ''10'', el_checked = False \<rparr>
   \<and> decimalNumber ''-5'' = Finite (- 5)
   \<and> engineers (readState decimalNumber negativeEngineersDoc) = Finite (- 5)"
proof -
  have a: "notANumberDoc sel_auth = None"
    by (simp add: notANumberDoc_def)
  have b: "negativeEngineersDoc sel_engineers
       = Some \<lparr> el_value = ''-5'', el_min = ''1'', el_max = ''10'', el_checked = False \<rparr>"
    by (simp add: negativeEngineersDoc_def)
  have c: "el_value \<lparr> el_value = ''-5'', el_min = ''1'', el_max = ''10'', el_checked = False \<rparr>
       = ''-5''"
    by simp
  have d: "readState decimalNumber notANumberDoc = defaultState"
    using notANumberDoc_noFiniteValue a
      readState_defaults_and_pass_through [of decimalNumber notANumberDoc]
    by (simp add: defaultState_def)
  have e: "engineers (readState decimalNumber negativeEngineersDoc) = Finite (- 5)"
    using b c decimalNumber_minus_five
      readState_defaults_and_pass_through [of decimalNumber negativeEngineersDoc]
    by metis
  show ?thesis
    using notANumberDoc_noFiniteValue a b d e decimalNumber_minus_five by simp
qed

text \<open>
  C9 as stated fails for values out of range: an engineers input with minimum 1,
  maximum 10 and value -5 yields -5 engineers, not the default 3.
\<close>

theorem out_of_range_value_counterexample:
  "negativeEngineersDoc sel_engineers
     = Some \<lparr> el_value = ''-5'', el_min = ''1'', el_max = ''10'', el_checked = False \<rparr>
   \<and> decimalNumber ''-5'' = Finite (- 5) \<and> decimalNumber ''1'' = Finite 1
   \<and> engineers (readState decimalNumber negativeEngineersDoc) = Finite (- 5)
   \<and> readState decimalNumber negativeEngineersDoc \<noteq> defaultState"
proof -
  have e: "engineers (readState decimalNumber negativeEngineersDoc) = Finite (- 5)"
    by (simp add: readState_def queryNumberInput_def negativeEngineersDoc_def
        decimalNumber_minus_five)
  have "engineers defaultState = Finite 3"
    by (simp add: defaultState_def)
  with e have "readState decimalNumber negativeEngineersDoc \<noteq> defaultState"
    by auto
  with e show ?thesis
    by (simp add: negativeEngineersDoc_def decimalNumber_minus_five decimalNumber_one)
qed

section \<open>Properties of the highlight engine\<close>

subsection \<open>Normalising twice\<close>

lemma of_char_shifted:
  assumes "n \<le> 222"
  shows "(of_char (char_of (n + 32 :: nat)) :: nat) = n + 32"
  using assms by simp

lemma toLowerChar_cases:
  obtains (letter) n where "(of_char c :: nat) = n"
      "(65 \<le> n \<and> n \<le> 90) \<or> (192 \<le> n \<and> n \<le> 222 \<and> n \<noteq> 215)"
      "(of_char (toLowerChar c) :: nat) = n + 32"
    | (other) "toLowerChar c = c"
proof (cases "(65 \<le> (of_char c :: nat) \<and> (of_char c :: nat) \<le> 90)
    \<or> (192 \<le> (of_char c :: nat) \<and> (of_char c :: nat) \<le> 222 \<and> (of_char c :: nat) \<noteq> 215)")
  case True
  define n where "n = (of_char c :: nat)"
  from True have b: "(65 \<le> n \<and> n \<le> 90) \<or> (192 \<le> n \<and> n \<le> 222 \<and> n \<noteq> 215)"
    unfolding n_def .
  then have le: "n \<le> 222" by linarith
  have t: "toLowerChar c = char_of (n + 32)"
    using True unfolding n_def toLowerChar_def Let_def by (simp only: if_True)
  have o: "(of_char (toLowerChar c) :: nat) = n + 32"
    unfolding t by (rule of_char_shifted [OF le])
  from n_def b o show ?thesis
    by (intro letter [of n]) simp_all
next
  case False
  then have "toLowerChar c = c"
    unfolding toLowerChar_def Let_def by (simp only: if_False)
  then show ?thesis by (rule other)
qed

lemma isWhiteSpace_toLowerChar: "isWhiteSpace (toLowerChar c) = isWhiteSpace c"
proof (cases c rule: toLowerChar_cases)
  case (letter n)
  from letter(2) have "n \<notin> {9, 10, 11, 12, 13, 32, 160}"
    "n + 32 \<notin> {9, 10, 11, 12, 13, 32, 160}"
    by auto
  then show ?thesis
    unfolding isWhiteSpace_def letter(1) letter(3) by simp
next
  case other
  then show ?thesis by simp
qed

lemma toLowerChar_idem: "toLowerChar (toLowerChar c) = toLowerChar c"
proof (cases c rule: toLowerChar_cases)
  case (letter n)
  from letter(2) have "\<not> ((65 \<le> n + 32 \<and> n + 32 \<le> 90)
      \<or> (192 \<le> n + 32 \<and> n + 32 \<le> 222 \<and> n + 32 \<noteq> 215))"
    by linarith
  then show ?thesis
    unfolding toLowerChar_def [of "toLowerChar c"] Let_def letter(3) by (simp only: if_False)
next
  case other
  then show ?thesis by simp
qed

lemma toLowerCase_idem: "toLowerCase (toLowerCase s) = toLowerCase s"
  by (simp add: toLowerCase_def toLowerChar_idem)

lemma dropWhile_toLowerCase:
  "dropWhile isWhiteSpace (toLowerCase s) = toLowerCase (dropWhile isWhiteSpace s)"
  by (induction s) (simp_all add: toLowerCase_def isWhiteSpace_toLowerChar)

lemma rev_toLowerCase: "rev (toLowerCase s) = toLowerCase (rev s)"
  by (simp add: toLowerCase_def rev_map)

lemma trim_toLowerCase: "trim (toLowerCase s) = toLowerCase (trim s)"
  by (simp only: trim_def dropWhile_toLowerCase rev_toLowerCase)

lemma dropWhile_no_leading:
  assumes "xs = [] \<or> \<not> P (hd xs)"
  shows "dropWhile P xs = xs"
  using assms by (cases xs) simp_all

lemma trim_idem: "trim (trim s) = trim s"
proof -
  define t where "t = dropWhile isWhiteSpace s"
  define u where "u = dropWhile isWhiteSpace (rev t)"
  have ts: "trim s = rev u"
    by (simp add: trim_def t_def u_def)
  have t_head: "t = [] \<or> \<not> isWhiteSpace (hd t)"
    unfolding t_def by (metis hd_dropWhile)
  have u_head: "u = [] \<or> \<not> isWhiteSpace (hd u)"
    unfolding u_def by (metis hd_dropWhile)
  have ru_head: "rev u = [] \<or> \<not> isWhiteSpace (hd (rev u))"
  proof (cases "u = []")
    case True
    then show ?thesis by simp
  next
    case False
    have split: "rev t = takeWhile isWhiteSpace (rev t) @ u"
      unfolding u_def by simp
    from False have "last (rev t) = last u"
      by (subst split) simp
    moreover from False split have "t \<noteq> []" by auto
    ultimately have "last u = hd t"
      by (simp add: last_rev)
    with t_head \<open>t \<noteq> []\<close> False show ?thesis
      by (simp add: hd_rev)
  qed
  have "dropWhile isWhiteSpace (rev u) = rev u"
    using ru_head by (rule dropWhile_no_leading [where P = isWhiteSpace])
  moreover have "dropWhile isWhiteSpace u = u"
    using u_head by (rule dropWhile_no_leading [where P = isWhiteSpace])
  ultimately have "trim (rev u) = rev u"
    by (simp add: trim_def)
  then show ?thesis
    by (simp only: ts)
qed

lemma normalizeText_idem: "normalizeText (normalizeText s) = normalizeText s"
  by (simp only: normalizeText_def trim_toLowerCase toLowerCase_idem trim_idem)

lemma normalizeText_nonempty:
  assumes "trim s \<noteq> []"
  shows "normalizeText s \<noteq> []"
proof -
  have "normalizeText s = toLowerCase (trim s)"
    by (simp only: normalizeText_def trim_toLowerCase)
  with assms show ?thesis
    by (simp add: toLowerCase_def)
qed

subsection \<open>Searching in strings\<close>

lemma findFrom_Some:
  "findFrom s q k = Some i \<Longrightarrow> k \<le> i \<and> i + length q \<le> k + length s"
proof (induction s arbitrary: k)
  case Nil
  then show ?case by (simp split: if_splits)
next
  case (Cons c s)
  show ?case
  proof (cases "take (length q) (c # s) = q")
    case True
    then have "length (take (length q) (c # s)) = length q"
      by simp
    then have "length q \<le> length (c # s)"
      by (simp only: length_take)
    with True Cons.prems show ?thesis by simp
  next
    case False
    with Cons.prems have "findFrom s q (Suc k) = Some i" by simp
    from Cons.IH [OF this] show ?thesis by simp
  qed
qed

lemma findFrom_empty: "findFrom s [] k = Some k"
  by (cases s) simp_all

lemma indexOf_Some:
  assumes "indexOf s q pos = Some i"
  shows "min pos (length s) \<le> i \<and> i + length q \<le> length s"
  using findFrom_Some [of "drop (min pos (length s)) s" q "min pos (length s)" i] assms
  by (simp add: indexOf_def Let_def)

lemma indexOf_Some_nonempty:
  assumes "indexOf s q pos = Some i" "q \<noteq> []"
  shows "pos \<le> i \<and> i + length q \<le> length s"
proof -
  from indexOf_Some [OF assms(1)] have a: "min pos (length s) \<le> i" "i + length q \<le> length s"
    by simp_all
  from assms(2) have "0 < length q" by simp
  with a show ?thesis by (cases "pos \<le> length s") (simp_all del: length_greater_0_conv)
qed

lemma indexOf_empty: "indexOf s [] pos = Some (min pos (length s))"
  by (simp add: indexOf_def Let_def findFrom_empty)

lemma descendantText_markElement [simp]: "descendantText (markElement s) = s"
  by (simp add: markElement_def)

lemma textContent_markElement [simp]: "textContent (markElement s) = s"
  by (simp add: markElement_def)

lemma isHighlightMark_markElement [simp]: "isHighlightMark (markElement s)"
  by (simp add: markElement_def HIGHLIGHT_CLASS_def classList_def isAsciiSpace_def)


lemma isPiece_Text [simp]: "isPiece (Text s)"
  by (simp add: isPiece_def)

lemma isPiece_markElement [simp]: "isPiece (markElement s)"
  by (simp add: isPiece_def)

lemma slices_join:
  assumes "pos \<le> idx"
  shows "slice s pos idx @ slice s idx (idx + n) @ drop (idx + n) s = drop pos s"
proof -
  have "take n (drop idx s) @ drop (idx + n) s = drop idx s"
    by (metis add.commute append_take_drop_id drop_drop)
  moreover have "take (idx - pos) (drop pos s) @ drop idx s = drop pos s"
    using assms by (metis add.commute append_take_drop_id drop_drop le_add_diff_inverse)
  ultimately show ?thesis by (simp add: slice_def)
qed

lemma scanMatches_result:
  assumes "q \<noteq> []"
  shows "\<exists>rest. scanMatches original lower q pos frag = Some (frag @ rest)
            \<and> list_all isPiece rest
            \<and> concat (map descendantText rest) = drop pos original"
proof (induction "length lower - pos" arbitrary: pos frag rule: less_induct)
  case less
  show ?case
  proof (cases "indexOf lower q pos")
    case None
    then show ?thesis
      by (subst scanMatches.simps) (simp add: pushText_def sliceFrom_def)
  next
    case (Some idx)
    from indexOf_Some_nonempty [OF Some assms]
    have b: "pos \<le> idx" "idx + length q \<le> length lower" by simp_all
    from assms have "0 < length q" by simp
    with b have "length lower - (idx + length q) < length lower - pos" by linarith
    from less [OF this, of "pushMark (slice original idx (idx + length q))
               (if idx > pos then pushText (slice original pos idx) frag else frag)"]
    obtain rest where r: "scanMatches original lower q (idx + length q)
        (pushMark (slice original idx (idx + length q))
               (if idx > pos then pushText (slice original pos idx) frag else frag))
        = Some (pushMark (slice original idx (idx + length q))
               (if idx > pos then pushText (slice original pos idx) frag else frag) @ rest)"
      "list_all isPiece rest"
      "concat (map descendantText rest) = drop (idx + length q) original"
      by blast
    let ?pre = "(if idx > pos then [Text (slice original pos idx)] else [])"
    let ?mid = "?pre @ [markElement (slice original idx (idx + length q))]"
    have e: "pushMark (slice original idx (idx + length q))
               (if idx > pos then pushText (slice original pos idx) frag else frag)
             = frag @ ?mid"
      by (simp add: pushMark_def pushText_def)
    have pre: "concat (map descendantText ?pre) = slice original pos idx"
      using b(1) by (simp add: slice_def)
    have "scanMatches original lower q pos frag = Some (frag @ (?mid @ rest))"
      using r(1) Some by (subst scanMatches.simps) (simp add: e)
    moreover have "list_all isPiece (?mid @ rest)"
      using r(2) by simp
    moreover have "concat (map descendantText (?mid @ rest)) = drop pos original"
      using slices_join [OF b(1), of original "length q"] r(3) pre by simp
    ultimately show ?thesis by blast
  qed
qed

lemma scanMatches_first_mark:
  assumes "q \<noteq> []" "str_includes lower q"
  shows "\<exists>r. scanMatches original lower q 0 [] = Some r \<and> list_ex isHighlightMark r"
proof -
  from assms(2) obtain idx where i: "indexOf lower q 0 = Some idx"
    by (auto simp: str_includes_def)
  let ?frag = "pushMark (slice original idx (idx + length q))
               (if idx > 0 then pushText (slice original 0 idx) [] else [])"
  from scanMatches_result [OF assms(1), of original lower "idx + length q" ?frag]
  obtain rest where "scanMatches original lower q (idx + length q) ?frag = Some (?frag @ rest)"
    by blast
  then have "scanMatches original lower q 0 [] = Some (?frag @ rest)"
    using i by (subst scanMatches.simps) simp
  moreover have "list_ex isHighlightMark (?frag @ rest)"
    by (simp add: pushMark_def)
  ultimately show ?thesis by blast
qed

lemma scanMatches_empty_query:
  assumes "scanMatches original lower q pos frag = Some r"
  shows "q \<noteq> []"
  using assms
proof (induction rule: scanMatches.raw_induct [rotated 1, consumes 1])
  case (1 scan original lower q pos frag r)
  show ?case
  proof
    assume q: "q = []"
    with indexOf_empty [of lower pos] have i: "indexOf lower q pos = Some (min pos (length lower))"
      by simp
    from 1(2) i q obtain frag' where
      "scan original lower q (min pos (length lower)) frag' = Some r"
      by simp
    from 1(1) [OF this] q show False by simp
  qed
qed

subsection \<open>mergeText, normalize\<close>

lemma descendantText_mergeText:
  "concat (map descendantText (mergeText ns)) = concat (map descendantText ns)"
proof (induction ns)
  case Nil
  then show ?case by simp
next
  case (Cons n ns)
  show ?case
  proof (cases n)
    case (Text s)
    with Cons show ?thesis
      by (cases "mergeText ns" rule: mergeText.cases) (auto split: if_splits)
  next
    case (Comment s)
    with Cons show ?thesis by simp
  next
    case (Element tag attrs children)
    with Cons show ?thesis by simp
  qed
qed

lemma descendantText_normalize_node:
  "descendantText (normalize_node n) = descendantText n"
proof (induction n)
  case (Element tag attrs children)
  then have "map descendantText (map normalize_node children) = map descendantText children"
    by simp
  then show ?case
    by (simp add: descendantText_mergeText del: map_map)
qed simp_all

lemma isHighlightMark_Element: "isHighlightMark c \<Longrightarrow> textContent c = descendantText c"
  by (cases c) simp_all

lemma descendantText_clearedTree:
  "descendantText (clearedTree n) = descendantText n"
proof (induction n)
  case (Element tag attrs children)
  let ?repl = "\<lambda>c. if isHighlightMark c then Text (textContent c) else clearedTree c"
  have r: "map descendantText (map ?repl children) = map descendantText children"
    using Element.IH by (auto simp: isHighlightMark_Element)
  have n: "map descendantText (map normalize_node (map ?repl children))
             = map descendantText children"
    using r by (simp add: descendantText_normalize_node comp_def)
  show ?case
  proof (cases "list_ex isHighlightMark children")
    case True
    then show ?thesis
      using n by (simp add: descendantText_mergeText Let_def del: map_map)
  next
    case False
    then show ?thesis
      using r by (simp add: Let_def del: map_map)
  qed
qed simp_all

lemma textContent_clearedTree: "textContent (clearedTree n) = textContent n"
  using descendantText_clearedTree [of n] by (cases n) (simp_all add: Let_def)

subsection \<open>highlight keeps the text and returns\<close>

lemma highlightNode_text:
  shows "q \<noteq> [] \<Longrightarrow>
           \<exists>frag. highlightNode q n = Some frag
              \<and> concat (map descendantText frag) = descendantText n"
    and "q \<noteq> [] \<Longrightarrow>
           \<exists>ns'. highlightNodes q ns = Some ns'
              \<and> concat (map descendantText ns') = concat (map descendantText ns)"
proof (induction q n and q ns rule: highlightNode_highlightNodes.induct)
  case (1 q s)
  show ?case
    using scanMatches_result [OF 1, of s "normalizeText s" 0 "[]"] by auto
next
  case (2 q s)
  then show ?case by simp
next
  case (3 q tag attrs children)
  then show ?case by auto
next
  case (4 q)
  then show ?case by simp
next
  case (5 q n ns)
  then show ?case by auto
qed


lemma highlightMatchesInElement_total:
  assumes "normalizeText query \<noteq> []"
  shows "\<exists>c'. highlightMatchesInElement c query = Some c' \<and> textContent c' = textContent c"
proof (cases c)
  case (Element tag attrs children)
  from highlightNode_text(2) [OF assms, of children]
  show ?thesis using Element by auto
qed simp_all

text \<open>Without normalised query: whatever is returned has the same text.\<close>

lemma highlightNode_empty_query:
  shows "highlightNode [] n = Some frag \<Longrightarrow> frag = [n]"
    and "highlightNodes [] ns = Some ns' \<Longrightarrow> ns' = ns"
proof (induction "[] :: string" n and "[] :: string" ns arbitrary: frag and ns'
    rule: highlightNode_highlightNodes.induct)
  case (1 s)
  have "str_includes (normalizeText s) []"
    by (simp add: str_includes_def indexOf_empty)
  with 1 have "scanMatches s (normalizeText s) [] 0 [] = Some frag"
    by simp
  from scanMatches_empty_query [OF this] show ?case by simp
next
  case (2 s)
  then show ?case by simp
next
  case (3 tag attrs children)
  then show ?case by (auto split: option.splits)
next
  case 4
  then show ?case by simp
next
  case (5 n ns)
  then show ?case by (auto split: option.splits)
qed

lemma highlightMatchesInElement_text:
  assumes "highlightMatchesInElement c query = Some c'"
  shows "textContent c' = textContent c"
proof (cases "normalizeText query = []")
  case True
  show ?thesis
  proof (cases c)
    case (Element tag attrs children)
    with assms True highlightNode_empty_query(2) [of children] show ?thesis
      by (auto split: if_splits option.splits)
  next
    case (Text s)
    with assms show ?thesis by simp
  next
    case (Comment s)
    with assms show ?thesis by simp
  qed
next
  case False
  from highlightMatchesInElement_total [OF False, of c] assms show ?thesis by auto
qed

lemma highlight_whitespace_query_diverges:
  "highlightMatchesInElement oneLetterParagraph '' '' = None"
proof -
  have n: "normalizeText '' '' = []"
    by code_simp
  have "scanMatches ''a'' (normalizeText ''a'') [] 0 [] = None"
    using scanMatches_empty_query [of "''a''" "normalizeText ''a''" "[]" 0 "[]"]
    by (cases "scanMatches ''a'' (normalizeText ''a'') [] 0 []") auto
  then show ?thesis
    by (simp add: oneLetterParagraph_def n str_includes_def indexOf_empty)
qed


subsection \<open>marks after clearing\<close>

lemma list_ex_mergeText:
  assumes "\<And>s. \<not> P (Text s)"
  shows "list_ex P (mergeText ns) = list_ex P ns"
proof (induction ns)
  case Nil
  then show ?case by simp
next
  case (Cons n ns)
  show ?case
  proof (cases n)
    case (Text s)
    with Cons assms show ?thesis
      by (cases "mergeText ns" rule: mergeText.cases) (auto split: if_splits)
  next
    case (Comment s)
    with Cons assms show ?thesis by simp
  next
    case (Element tag attrs children)
    with Cons assms show ?thesis by simp
  qed
qed


lemma clearedTree_Element:
  "clearedTree (Element tag attrs children) =
     Element tag attrs
       (if list_ex isHighlightMark children
        then mergeText (map normalize_node (map replaceMark children))
        else map replaceMark children)"
proof -
  have "replaceMark = (\<lambda>c. if isHighlightMark c then Text (textContent c) else clearedTree c)"
    by (rule ext) (simp add: replaceMark_def)
  then show ?thesis
    by (simp add: Let_def del: map_map)
qed

declare clearedTree.simps(1) [simp del]

lemma isHighlightMark_normalize_node:
  "isHighlightMark (normalize_node n) = isHighlightMark n"
  by (cases n) simp_all


lemma isHighlightMark_clearedTree:
  "isHighlightMark (clearedTree n) = isHighlightMark n"
  by (cases n) (simp_all add: clearedTree_Element)

lemma isText_clearedTree: "isText (clearedTree n) = isText n"
  by (cases n) (simp_all add: clearedTree_Element)

lemma anyMark_mergeText: "anyMark (mergeText ns) = anyMark ns"
  unfolding anyMark_def by (rule list_ex_mergeText) simp

lemma hasHighlightMark_Element:
  "hasHighlightMark (Element tag attrs children) = anyMark children"
  by (simp add: anyMark_def)

lemma anyMark_iff: "anyMark ns = (\<exists>c \<in> set ns. isHighlightMark c \<or> hasHighlightMark c)"
  by (simp add: anyMark_def list_ex_iff)

lemma hasHighlightMark_normalize_node:
  "hasHighlightMark (normalize_node n) = hasHighlightMark n"
proof (induction n)
  case (Element tag attrs children)
  have "anyMark (map normalize_node children) = anyMark children"
    using Element.IH by (simp add: anyMark_iff isHighlightMark_normalize_node)
  then show ?case
    by (simp only: normalize_node.simps hasHighlightMark_Element anyMark_mergeText)
qed simp_all

lemma anyMark_map_normalize_node: "anyMark (map normalize_node ns) = anyMark ns"
  by (simp add: anyMark_iff isHighlightMark_normalize_node hasHighlightMark_normalize_node)

lemma no_mark_after_clearedTree: "\<not> hasHighlightMark (clearedTree n)"
proof (induction n)
  case (Element tag attrs children)
  have r: "\<not> anyMark (map replaceMark children)"
    unfolding anyMark_iff
  proof
    assume "\<exists>c \<in> set (map replaceMark children). isHighlightMark c \<or> hasHighlightMark c"
    then obtain c where c: "c \<in> set children"
      "isHighlightMark (replaceMark c) \<or> hasHighlightMark (replaceMark c)"
      by auto
    show False
    proof (cases "isHighlightMark c")
      case True
      with c(2) show False by (simp add: replaceMark_def)
    next
      case False
      with c(2) Element.IH [OF c(1)] show False
        by (simp add: replaceMark_def isHighlightMark_clearedTree)
    qed
  qed
  then have "\<not> anyMark (mergeText (map normalize_node (map replaceMark children)))"
    unfolding anyMark_mergeText anyMark_map_normalize_node .
  with r show ?case
    by (simp only: clearedTree_Element hasHighlightMark_Element split: if_split) simp
qed simp_all

lemma clearedTree_without_marks:
  "\<not> hasHighlightMark n \<Longrightarrow> clearedTree n = n"
proof (induction n)
  case (Element tag attrs children)
  from Element.prems have m: "\<forall>c \<in> set children. \<not> isHighlightMark c \<and> \<not> hasHighlightMark c"
    by (simp add: list_ex_iff)
  with Element.IH have "\<forall>c \<in> set children. replaceMark c = c"
    by (simp add: replaceMark_def)
  then have "map replaceMark children = children"
    by (simp add: map_idI)
  moreover from m have "\<not> list_ex isHighlightMark children"
    by (simp add: list_ex_iff)
  ultimately show ?case
    by (simp only: clearedTree_Element if_False)
qed simp_all

subsection \<open>the element skeleton\<close>








lemma normalSiblings_Text:
  "normalSiblings (Text s # ns) = (s \<noteq> [] \<and> normalSiblings ns \<and> (case ns of [] \<Rightarrow> True | n # _ \<Rightarrow> \<not> isText n))"
  by (cases "(Text s # ns)" rule: normalSiblings.cases) (auto split: list.splits)

lemma normalSiblings_other:
  "\<not> isText n \<Longrightarrow> normalSiblings (n # ns) = normalSiblings ns"
  by (cases n) simp_all

lemma mergeText_other: "\<not> isText n \<Longrightarrow> mergeText (n # ns) = n # mergeText ns"
  by (cases n) simp_all

lemma mergeText_normalSiblings: "normalSiblings ns \<Longrightarrow> mergeText ns = ns"
proof (induction ns)
  case Nil
  then show ?case by simp
next
  case (Cons n ns)
  show ?case
  proof (cases "isText n")
    case True
    then obtain s where s: "n = Text s" by (cases n) simp_all
    with Cons.prems have a: "s \<noteq> []" "normalSiblings ns"
      "case ns of [] \<Rightarrow> True | n # _ \<Rightarrow> \<not> isText n"
      by (simp_all add: normalSiblings_Text)
    from Cons.IH [OF a(2)] have m: "mergeText ns = ns" .
    show ?thesis
    proof (cases ns)
      case Nil
      with s a(1) show ?thesis by simp
    next
      case (Cons n' ns')
      with a(3) have "\<not> isText n'" by simp
      with s a(1) m Cons show ?thesis
        by (cases n') simp_all
    qed
  next
    case False
    with Cons show ?thesis
      by (simp add: mergeText_other normalSiblings_other)
  qed
qed

lemma normalize_node_normalTree: "normalTree n \<Longrightarrow> normalize_node n = n"
proof (induction n)
  case (Element tag attrs children)
  then have "map normalize_node children = children"
    by (simp add: map_idI list_all_iff)
  with Element.prems show ?case
    by (simp add: mergeText_normalSiblings)
qed simp_all

text \<open>A run of text nodes in front of other siblings is joined into one.\<close>

lemma mergeText_text_run:
  assumes "list_all isText ps"
  shows "mergeText (ps @ ns) =
           (case mergeText ns of
              Text t # ms \<Rightarrow> Text (concat (map descendantText ps) @ t) # ms
            | ms \<Rightarrow> if concat (map descendantText ps) = [] then ms
                    else Text (concat (map descendantText ps)) # ms)"
  using assms
proof (induction ps)
  case Nil
  then show ?case
    by (cases "mergeText ns" rule: mergeText.cases) simp_all
next
  case (Cons p ps)
  then obtain s where s: "p = Text s" by (cases p) simp_all
  from Cons have ih: "mergeText (ps @ ns) =
           (case mergeText ns of
              Text t # ms \<Rightarrow> Text (concat (map descendantText ps) @ t) # ms
            | ms \<Rightarrow> if concat (map descendantText ps) = [] then ms
                    else Text (concat (map descendantText ps)) # ms)"
    by simp
  show ?case
    unfolding s
    by (cases "mergeText ns" rule: mergeText.cases) (simp_all add: ih)
qed

lemma mergeText_text_run_normal:
  assumes "list_all isText ps" "concat (map descendantText ps) = s" "s \<noteq> []"
    "mergeText ns = ms" "case ms of [] \<Rightarrow> True | n # _ \<Rightarrow> \<not> isText n"
  shows "mergeText (ps @ ns) = Text s # ms"
proof (cases ms)
  case Nil
  with assms show ?thesis by (simp add: mergeText_text_run)
next
  case (Cons n ms')
  with assms(5) have "\<not> isText n" by simp
  with Cons assms show ?thesis
    by (cases n) (simp_all add: mergeText_text_run)
qed

lemma piece_replaced:
  assumes "isPiece p"
  shows "normalize_node (replaceMark p) = Text (descendantText p)"
proof (cases "isText p")
  case True
  then obtain s where "p = Text s" by (cases p) simp_all
  then show ?thesis by (simp add: replaceMark_def)
next
  case False
  with assms have "p = markElement (descendantText p)"
    by (simp add: isPiece_def)
  then have "replaceMark p = Text (descendantText p)"
    by (metis isHighlightMark_markElement replaceMark_def textContent_markElement)
  then show ?thesis by simp
qed

lemma pieces_replaced:
  assumes "list_all isPiece ps"
  shows "list_all isText (map normalize_node (map replaceMark ps))
       \<and> concat (map descendantText (map normalize_node (map replaceMark ps)))
           = concat (map descendantText ps)"
  using assms
proof (induction ps)
  case Nil
  then show ?case by simp
next
  case (Cons p ps)
  then have "isPiece p" "list_all isPiece ps" by simp_all
  with Cons.IH piece_replaced [of p] show ?case
    by simp
qed

text \<open>The fragment of a text node without a mark is the text node itself.\<close>

lemma highlight_Text_cases:
  assumes "q \<noteq> []" "highlightNode q (Text s) = Some frag"
  shows "list_all isPiece frag \<and> concat (map descendantText frag) = s
       \<and> (frag = [Text s] \<or> list_ex isHighlightMark frag)"
proof (cases "str_includes (normalizeText s) q")
  case True
  from scanMatches_result [OF assms(1), of s "normalizeText s" 0 "[]"]
    scanMatches_first_mark [OF assms(1) True, of s] assms(2) True
  show ?thesis by auto
next
  case False
  with assms(2) show ?thesis by auto
qed

lemma highlight_round_trip_nodes:
  shows "q \<noteq> [] \<Longrightarrow> normalTree n \<Longrightarrow> \<not> isHighlightMark n \<Longrightarrow> \<not> hasHighlightMark n \<Longrightarrow>
         highlightNode q n = Some frag \<Longrightarrow>
           (isText n \<longrightarrow> list_all isPiece frag
               \<and> concat (map descendantText frag) = descendantText n
               \<and> (frag = [n] \<or> list_ex isHighlightMark frag))
         \<and> (\<not> isText n \<longrightarrow>
               (\<exists>n'. frag = [n'] \<and> \<not> isHighlightMark n' \<and> \<not> isText n'
                   \<and> clearedTree n' = n))"
    and "q \<noteq> [] \<Longrightarrow> normalSiblings ns \<Longrightarrow> list_all normalTree ns \<Longrightarrow> \<not> anyMark ns \<Longrightarrow>
         highlightNodes q ns = Some ns' \<Longrightarrow>
           mergeText (map normalize_node (map replaceMark ns')) = ns
         \<and> (\<not> list_ex isHighlightMark ns' \<longrightarrow> map replaceMark ns' = ns)"
proof (induction q n and q ns arbitrary: frag and ns' rule: highlightNode_highlightNodes.induct)
  case (1 q s)
  from highlight_Text_cases [OF 1(1) 1(5)] show ?case by simp
next
  case (2 q s)
  then show ?case by (auto simp: )
next
  case (3 q tag attrs children)
  from 3(6) obtain cs' where cs: "highlightNodes q children = Some cs'"
    "frag = [Element tag attrs cs']"
    by (auto split: option.splits)
  from 3(3) have a: "normalSiblings children" "list_all normalTree children" by simp_all
  from 3(5) have b: "\<not> anyMark children" by (simp add: anyMark_def)
  from 3(1) [OF 3(2) a b cs(1)]
  have r: "mergeText (map normalize_node (map replaceMark cs')) = children"
    "\<not> list_ex isHighlightMark cs' \<longrightarrow> map replaceMark cs' = children"
    by simp_all
  have "clearedTree (Element tag attrs cs') = Element tag attrs children"
    using r by (simp only: clearedTree_Element split: if_split) simp
  with cs(2) 3(4) show ?case by simp
next
  case (4 q)
  then show ?case by simp
next
  case (5 q n ns)
  from 5(7) obtain frag rest where fr: "highlightNode q n = Some frag"
    "highlightNodes q ns = Some rest" "ns' = frag @ rest"
    by (auto split: option.splits)
  from 5(6) have m: "\<not> isHighlightMark n" "\<not> hasHighlightMark n" "\<not> anyMark ns"
    by (simp_all add: anyMark_def)
  from 5(5) have t: "normalTree n" "list_all normalTree ns" by simp_all
  note P = 5(1) [OF 5(3) t(1) m(1) m(2) fr(1)]
  show ?case
  proof (cases "isText n")
    case True
    then obtain s where s: "n = Text s" by (cases n) simp_all
    with 5(4) have ns: "s \<noteq> []" "normalSiblings ns"
      "case ns of [] \<Rightarrow> True | n # _ \<Rightarrow> \<not> isText n"
      by (simp_all add: normalSiblings_Text)
    from 5(2) [OF fr(1) 5(3) ns(2) t(2) m(3) fr(2)]
    have Q: "mergeText (map normalize_node (map replaceMark rest)) = ns"
      "\<not> list_ex isHighlightMark rest \<longrightarrow> map replaceMark rest = ns"
      by simp_all
    from P True s have f: "list_all isPiece frag" "concat (map descendantText frag) = s"
      "frag = [n] \<or> list_ex isHighlightMark frag"
      by simp_all
    from pieces_replaced [OF f(1)] f(2)
    have pr: "list_all isText (map normalize_node (map replaceMark frag))"
      "concat (map descendantText (map normalize_node (map replaceMark frag))) = s"
      by simp_all
    have "mergeText (map normalize_node (map replaceMark frag)
                      @ map normalize_node (map replaceMark rest)) = Text s # ns"
      by (rule mergeText_text_run_normal [OF pr(1) pr(2) ns(1) Q(1) ns(3)])
    then have one: "mergeText (map normalize_node (map replaceMark ns')) = n # ns"
      by (simp add: fr(3) s)
    have two: "\<not> list_ex isHighlightMark ns' \<longrightarrow> map replaceMark ns' = n # ns"
    proof
      assume no: "\<not> list_ex isHighlightMark ns'"
      with fr(3) have "\<not> list_ex isHighlightMark frag" "\<not> list_ex isHighlightMark rest"
        by simp_all
      with f(3) Q(2) have "frag = [n]" "map replaceMark rest = ns" by simp_all
      then show "map replaceMark ns' = n # ns"
        by (simp add: fr(3) s replaceMark_def)
    qed
    from one two show ?thesis by simp
  next
    case False
    with 5(4) have ns: "normalSiblings ns"
      by (simp add: normalSiblings_other)
    from 5(2) [OF fr(1) 5(3) ns t(2) m(3) fr(2)]
    have Q: "mergeText (map normalize_node (map replaceMark rest)) = ns"
      "\<not> list_ex isHighlightMark rest \<longrightarrow> map replaceMark rest = ns"
      by simp_all
    from P False obtain n' where n': "frag = [n']" "\<not> isHighlightMark n'" "\<not> isText n'"
      "clearedTree n' = n"
      by auto
    have rm: "replaceMark n' = n"
      using n' by (simp add: replaceMark_def)
    have nn: "normalize_node n = n"
      by (rule normalize_node_normalTree [OF t(1)])
    have one: "mergeText (map normalize_node (map replaceMark ns')) = n # ns"
      using Q(1) False by (simp add: fr(3) n'(1) rm nn mergeText_other)
    have two: "\<not> list_ex isHighlightMark ns' \<longrightarrow> map replaceMark ns' = n # ns"
      using Q(2) by (simp add: fr(3) n'(1) n'(2) rm)
    from one two show ?thesis by simp
  qed
qed

lemma normalizeText_Nil: "normalizeText [] = []"
  by (simp add: normalizeText_def toLowerCase_def trim_def)

lemma highlight_then_clearedTree_restores:
  assumes "normalizeText query \<noteq> []" "normalTree c" "\<not> hasHighlightMark c"
    "highlightMatchesInElement c query = Some c'"
  shows "clearedTree c' = c"
proof (cases c)
  case (Element tag attrs children)
  from assms(1) have "query \<noteq> []"
    using normalizeText_Nil by auto
  with Element assms(4) obtain cs' where cs:
    "highlightNodes (normalizeText query) children = Some cs'" "c' = Element tag attrs cs'"
    by (auto split: option.splits)
  from assms(2) Element have a: "normalSiblings children" "list_all normalTree children"
    by simp_all
  from assms(3) Element have b: "\<not> anyMark children"
    by (simp add: anyMark_def)
  from highlight_round_trip_nodes(2) [OF assms(1) a b cs(1)]
  have "clearedTree (Element tag attrs cs') = Element tag attrs children"
    by (simp only: clearedTree_Element split: if_split) simp
  with cs(2) Element show ?thesis by simp
next
  case (Text s)
  with assms(4) show ?thesis by auto
next
  case (Comment s)
  with assms(4) show ?thesis by auto
qed


subsection \<open>One turn of the clearing loop\<close>

subsection \<open>mergeText depends on the merged rest only\<close>


lemma mergeText_Cons: "mergeText (n # ns) = mergeHead n (mergeText ns)"
  by (cases n) (simp_all split: list.splits node.splits)

lemma mergeHead_Text_join:
  assumes "s \<noteq> []"
  shows "mergeHead (Text (s @ t)) ms = mergeHead (Text s) (mergeHead (Text t) ms)"
  using assms by (cases ms rule: mergeText.cases) simp_all

lemma mergeText_map_mergeText:
  assumes "\<And>s. g (Text s) = Text s"
  shows "mergeText (map g (mergeText ys)) = mergeText (map g ys)"
proof (induction ys)
  case Nil
  then show ?case by simp
next
  case (Cons y ys)
  show ?case
  proof (cases y)
    case (Text s)
    show ?thesis
    proof (cases "s = []")
      case True
      with Text Cons show ?thesis
        by (simp add: assms)
    next
      case False
      have ih: "mergeText (map g (mergeText ys)) = mergeText (map g ys)"
        by (rule Cons)
      show ?thesis
      proof (cases "\<exists>t ms. mergeText ys = Text t # ms")
        case True
        then obtain t ms where m: "mergeText ys = Text t # ms" by blast
        have "mergeText (map g (mergeText (y # ys))) = mergeText (Text (s @ t) # map g ms)"
          using Text False m by (simp add: assms)
        also have "\<dots> = mergeHead (Text (s @ t)) (mergeText (map g ms))"
          by (rule mergeText_Cons)
        also have "\<dots> = mergeHead (Text s) (mergeHead (Text t) (mergeText (map g ms)))"
          by (rule mergeHead_Text_join [OF False])
        also have "mergeHead (Text t) (mergeText (map g ms)) = mergeText (map g (Text t # ms))"
          by (simp only: list.map assms mergeText_Cons)
        also have "mergeText (map g (Text t # ms)) = mergeText (map g ys)"
          using ih m by simp
        also have "mergeHead (Text s) (mergeText (map g ys)) = mergeText (map g (y # ys))"
          using Text by (simp only: list.map assms mergeText_Cons)
        finally show ?thesis .
      next
        case other: False
        have "mergeText (map g (mergeText (y # ys))) = mergeText (map g (Text s # mergeText ys))"
          using Text False other
          by (cases "mergeText ys" rule: mergeText.cases) simp_all
        also have "\<dots> = mergeHead (Text s) (mergeText (map g (mergeText ys)))"
          by (simp only: list.map assms mergeText_Cons)
        also have "\<dots> = mergeHead (Text s) (mergeText (map g ys))"
          by (simp only: ih)
        also have "\<dots> = mergeText (map g (y # ys))"
          using Text by (simp only: list.map assms mergeText_Cons)
        finally show ?thesis .
      qed
    qed
  next
    case (Comment s)
    with Cons show ?thesis
      by (simp add: mergeText_Cons [of "g (Comment s)"])
  next
    case (Element tag attrs children)
    with Cons show ?thesis
      by (simp add: mergeText_Cons [of "g (Element tag attrs children)"])
  qed
qed

lemma normalize_node_idem: "normalize_node (normalize_node c) = normalize_node c"
proof (induction c)
  case (Element tag attrs children)
  have "mergeText (map normalize_node (mergeText (map normalize_node children)))
      = mergeText (map normalize_node (map normalize_node children))"
    by (rule mergeText_map_mergeText) simp
  also have "map normalize_node (map normalize_node children) = map normalize_node children"
    using Element.IH by simp
  finally show ?case by simp
qed simp_all

lemma mergeText_normalize_idem:
  "mergeText (map normalize_node (mergeText (map normalize_node ys)))
     = mergeText (map normalize_node ys)"
proof -
  have "mergeText (map normalize_node (mergeText (map normalize_node ys)))
      = mergeText (map normalize_node (map normalize_node ys))"
    by (rule mergeText_map_mergeText) simp
  then show ?thesis
    by (simp add: normalize_node_idem comp_def)
qed

text \<open>A map that keeps text nodes and the kind of the others commutes with mergeText.\<close>

lemma map_mergeText_commute:
  assumes "\<And>s. g (Text s) = Text s" "\<And>n. \<not> isText n \<Longrightarrow> \<not> isText (g n)"
  shows "map g (mergeText ys) = mergeText (map g ys)"
proof (induction ys)
  case Nil
  then show ?case by simp
next
  case (Cons y ys)
  show ?case
  proof (cases y)
    case (Text s)
    show ?thesis
    proof (cases "mergeText ys")
      case Nil
      with Text Cons show ?thesis by (auto simp: assms(1))
    next
      case (Cons m ms)
      note outer = this
      show ?thesis
      proof (cases "isText m")
        case True
        then obtain t where t: "m = Text t" by (cases m) simp_all
        have b: "mergeText (map g ys) = Text t # map g ms"
          using Cons.IH outer t by (simp add: assms(1))
        show ?thesis
          unfolding Text using outer t b by (simp add: assms(1))
      next
        case False
        from assms(2) [OF False] obtain x where "g m \<noteq> Text x" by (cases "g m") auto
        have gm: "\<not> isText (g m)" by (rule assms(2) [OF False])
        have a: "mergeText (Text s # ys) = (if s = [] then m # ms else Text s # m # ms)"
          using outer False by (cases m) simp_all
        have b: "mergeText (map g ys) = g m # map g ms"
          using Cons.IH outer by simp
        have c: "mergeText (Text s # map g ys) = (if s = [] then g m # map g ms else Text s # g m # map g ms)"
          using b gm by (cases "g m") simp_all
        show ?thesis
          unfolding Text using a c by (simp add: assms(1))
      qed
    qed
  next
    case (Comment s)
    with Cons assms(2) [of "Comment s"] show ?thesis
      by (simp add: mergeText_other)
  next
    case (Element tag attrs children)
    with Cons assms(2) [of "Element tag attrs children"] show ?thesis
      by (simp add: mergeText_other)
  qed
qed

lemma textContent_normalize_node: "textContent (normalize_node c) = textContent c"
  using descendantText_normalize_node [of c] by (cases c) simp_all

lemma replaceMark_Text: "replaceMark (Text s) = Text s"
  by (simp add: replaceMark_def)

lemma normalize_replaceMark_Text: "normalize_node (replaceMark (Text s)) = Text s"
  by (simp add: replaceMark_def)

text \<open>Clearing and normalising commute.\<close>

lemma mergeText_absorb:
  "mergeText (map normalize_node (map replaceMark (mergeText ys)))
     = mergeText (map normalize_node (map replaceMark ys))"
proof -
  have "mergeText (map (\<lambda>x. normalize_node (replaceMark x)) (mergeText ys))
      = mergeText (map (\<lambda>x. normalize_node (replaceMark x)) ys)"
    by (rule mergeText_map_mergeText) (simp add: replaceMark_def)
  then show ?thesis
    by (simp only: map_map comp_def)
qed

lemma normalize_replaceMark_normalize:
  assumes "clearedTree (normalize_node x) = normalize_node (clearedTree x)"
  shows "normalize_node (replaceMark (normalize_node x)) = normalize_node (replaceMark x)"
proof (cases "isHighlightMark x")
  case True
  then show ?thesis
    by (simp add: replaceMark_def isHighlightMark_normalize_node textContent_normalize_node)
next
  case False
  then show ?thesis
    using assms
    by (simp add: replaceMark_def isHighlightMark_normalize_node normalize_node_idem)
qed

lemma clear_normalize_children:
  assumes "\<And>x. x \<in> set xs \<Longrightarrow> clearedTree (normalize_node x) = normalize_node (clearedTree x)"
  shows "mergeText (map normalize_node (map replaceMark (mergeText (map normalize_node xs))))
       = mergeText (map normalize_node (map replaceMark xs))"
proof -
  have e: "map (\<lambda>x. normalize_node (replaceMark (normalize_node x))) xs
      = map (\<lambda>x. normalize_node (replaceMark x)) xs"
    by (rule map_cong [OF refl]) (rule normalize_replaceMark_normalize [OF assms])
  have "mergeText (map normalize_node (map replaceMark (mergeText (map normalize_node xs))))
      = mergeText (map normalize_node (map replaceMark (map normalize_node xs)))"
    by (rule mergeText_absorb)
  also have "map normalize_node (map replaceMark (map normalize_node xs))
      = map (\<lambda>x. normalize_node (replaceMark (normalize_node x))) xs"
    by (simp only: map_map comp_def)
  also have "\<dots> = map (\<lambda>x. normalize_node (replaceMark x)) xs"
    by (rule e)
  also have "\<dots> = map normalize_node (map replaceMark xs)"
    by (simp only: map_map comp_def)
  finally show ?thesis .
qed

text \<open>The children of a cleared element.\<close>


lemma clearedTree_clearedChildren:
  "clearedTree (Element tag attrs cs) = Element tag attrs (clearedChildren cs)"
  by (simp add: clearedTree_Element clearedChildren_def)

lemma list_ex_mark_normalized:
  "list_ex isHighlightMark (mergeText (map normalize_node xs)) = list_ex isHighlightMark xs"
proof -
  have "list_ex isHighlightMark (mergeText (map normalize_node xs))
      = list_ex isHighlightMark (map normalize_node xs)"
    by (rule list_ex_mergeText) simp
  then show ?thesis
    by (simp add: list_ex_iff isHighlightMark_normalize_node)
qed

lemma replaceMark_without_direct:
  assumes "\<not> list_ex isHighlightMark xs"
  shows "map replaceMark xs = map clearedTree xs"
  using assms by (induction xs) (simp_all add: replaceMark_def)

lemma clearedTree_normalize_commute:
  "clearedTree (normalize_node c) = normalize_node (clearedTree c)"
proof (induction c)
  case (Element tag attrs ks)
  let ?nk = "mergeText (map normalize_node ks)"
  have "clearedChildren ?nk = mergeText (map normalize_node (clearedChildren ks))"
  proof (cases "list_ex isHighlightMark ks")
    case True
    then have "clearedChildren ?nk = mergeText (map normalize_node (map replaceMark ?nk))"
      by (simp add: clearedChildren_def list_ex_mark_normalized)
    also have "\<dots> = mergeText (map normalize_node (map replaceMark ks))"
      by (rule clear_normalize_children) (rule Element.IH)
    also have "\<dots> = mergeText (map normalize_node (mergeText (map normalize_node (map replaceMark ks))))"
      by (simp only: mergeText_normalize_idem)
    finally show ?thesis
      using True by (simp add: clearedChildren_def)
  next
    case False
    then have d: "\<not> list_ex isHighlightMark ?nk"
      by (simp add: list_ex_mark_normalized)
    have "clearedChildren ?nk = map clearedTree ?nk"
      using d by (simp add: clearedChildren_def replaceMark_without_direct)
    also have "\<dots> = mergeText (map clearedTree (map normalize_node ks))"
      by (rule map_mergeText_commute) (simp_all add: isText_clearedTree)
    also have "map clearedTree (map normalize_node ks) = map normalize_node (map clearedTree ks)"
      using Element.IH by simp
    finally show ?thesis
      using False by (simp add: clearedChildren_def replaceMark_without_direct)
  qed
  then show ?case
    by (simp add: clearedTree_clearedChildren)
qed simp_all


lemma marksBelow_Element: "marksBelow (Element tag attrs cs) = marksIn cs"
  by (simp add: marksIn_def)

lemma marksIn_Cons:
  "marksIn (c # cs) = (if isHighlightMark c then 1 else 0) + marksBelow c + marksIn cs"
  by (simp add: marksIn_def)

lemma marksIn_Nil: "marksIn [] = 0"
  by (simp add: marksIn_def)

lemma marksIn_mergeText: "marksIn (mergeText ys) = marksIn ys"
proof (induction ys)
  case Nil
  then show ?case by simp
next
  case (Cons y ys)
  show ?case
  proof (cases y)
    case (Text s)
    with Cons show ?thesis
      by (cases "mergeText ys" rule: mergeText.cases) (auto simp: marksIn_Cons marksIn_Nil)
  next
    case (Comment s)
    with Cons show ?thesis by (simp add: marksIn_Cons)
  next
    case (Element tag attrs children)
    with Cons show ?thesis by (simp add: marksIn_Cons)
  qed
qed

lemma marksBelow_normalize_node: "marksBelow (normalize_node c) = marksBelow c"
proof (induction c)
  case (Element tag attrs ks)
  have "marksIn (map normalize_node ks) = marksIn ks"
    using Element.IH
    by (induction ks) (simp_all add: marksIn_Cons marksIn_Nil isHighlightMark_normalize_node)
  then show ?case
    by (simp only: normalize_node.simps marksBelow_Element marksIn_mergeText)
qed simp_all

lemma marksIn_normalized: "marksIn (mergeText (map normalize_node ks)) = marksIn ks"
proof -
  have "marksIn (map normalize_node ks) = marksIn ks"
    by (induction ks)
      (simp_all add: marksIn_Cons marksIn_Nil isHighlightMark_normalize_node
        marksBelow_normalize_node)
  then show ?thesis
    by (simp only: marksIn_mergeText)
qed

lemma replace_properties:
  shows "replaceFirst cs = Some (cs', direct) \<Longrightarrow>
           map replaceMark cs' = map replaceMark cs
         \<and> (direct \<longrightarrow> list_ex isHighlightMark cs)
         \<and> (\<not> direct \<longrightarrow> list_ex isHighlightMark cs' = list_ex isHighlightMark cs)
         \<and> marksIn cs' < marksIn cs"
    and "replaceBelow c = Some c' \<Longrightarrow>
           clearedTree c' = clearedTree c
         \<and> isHighlightMark c' = isHighlightMark c
         \<and> marksBelow c' < marksBelow c"
proof (induction cs and c arbitrary: cs' direct and c' rule: replaceFirst_replaceBelow.induct)
  case 1
  then show ?case by simp
next
  case (2 c cs)
  show ?case
  proof (cases "isHighlightMark c")
    case True
    with 2(3) have e: "cs' = Text (textContent c) # cs" "direct" by simp_all
    have "replaceMark (Text (textContent c)) = replaceMark c"
      using True by (simp add: replaceMark_def)
    with e True show ?thesis
      by (simp add: marksIn_Cons)
  next
    case False
    note notmark = this
    show ?thesis
    proof (cases "replaceBelow c")
      case (Some d)
      with 2(3) notmark have e: "cs' = d # cs" "\<not> direct" by simp_all
      from 2(1) [OF notmark Some]
      have d: "clearedTree d = clearedTree c" "isHighlightMark d = isHighlightMark c"
        "marksBelow d < marksBelow c"
        by simp_all
      then have "replaceMark d = replaceMark c"
        using notmark by (simp add: replaceMark_def)
      with e d show ?thesis
        by (simp add: marksIn_Cons)
    next
      case None
      with 2(3) notmark obtain ds where r: "replaceFirst cs = Some (ds, direct)" "cs' = c # ds"
        by (auto split: option.splits)
      from 2(2) [OF notmark None r(1)]
      have "map replaceMark ds = map replaceMark cs"
        "direct \<longrightarrow> list_ex isHighlightMark cs"
        "\<not> direct \<longrightarrow> list_ex isHighlightMark ds = list_ex isHighlightMark cs"
        "marksIn ds < marksIn cs"
        by simp_all
      with r(2) show ?thesis
        by (simp add: marksIn_Cons)
    qed
  qed
next
  case (3 tag attrs children)
  from 3(2) obtain ks direct where r: "replaceFirst children = Some (ks, direct)"
    "c' = Element tag attrs (if direct then mergeText (map normalize_node ks) else ks)"
    by (auto split: option.splits)
  from 3(1) [OF r(1)]
  have p: "map replaceMark ks = map replaceMark children"
    "direct \<longrightarrow> list_ex isHighlightMark children"
    "\<not> direct \<longrightarrow> list_ex isHighlightMark ks = list_ex isHighlightMark children"
    "marksIn ks < marksIn children"
    by simp_all
  have "clearedChildren (if direct then mergeText (map normalize_node ks) else ks)
      = clearedChildren children"
  proof (cases direct)
    case True
    with p(2) have m: "list_ex isHighlightMark children" by simp
    have "Element tag attrs (clearedChildren (mergeText (map normalize_node ks)))
        = clearedTree (normalize_node (Element tag attrs ks))"
      by (simp add: clearedTree_clearedChildren)
    also have "\<dots> = normalize_node (clearedTree (Element tag attrs ks))"
      by (rule clearedTree_normalize_commute)
    also have "\<dots> = Element tag attrs (mergeText (map normalize_node (clearedChildren ks)))"
      by (simp add: clearedTree_clearedChildren)
    finally have a: "clearedChildren (mergeText (map normalize_node ks))
        = mergeText (map normalize_node (clearedChildren ks))"
      by simp
    have "mergeText (map normalize_node (clearedChildren ks))
        = mergeText (map normalize_node (map replaceMark children))"
    proof (cases "list_ex isHighlightMark ks")
      case True
      then have "clearedChildren ks = mergeText (map normalize_node (map replaceMark children))"
        by (simp only: clearedChildren_def p(1) if_True)
      then show ?thesis
        by (simp only: mergeText_normalize_idem)
    next
      case False
      then have "clearedChildren ks = map replaceMark children"
        by (simp only: clearedChildren_def p(1) if_False)
      then show ?thesis
        by (simp only:)
    qed
    with a m True show ?thesis
      by (simp add: clearedChildren_def)
  next
    case False
    with p(1) p(3) show ?thesis
      by (simp add: clearedChildren_def)
  qed
  moreover have "marksIn (if direct then mergeText (map normalize_node ks) else ks) < marksIn children"
    using p(4) by (simp add: marksIn_normalized)
  ultimately show ?case
    using r(2) by (simp add: clearedTree_clearedChildren marksBelow_Element del: marksBelow.simps)
next
  case (4 s)
  then show ?case by simp
next
  case (5 s)
  then show ?case by simp
qed

lemma replace_none:
  shows "replaceFirst cs = None \<Longrightarrow> \<not> anyMark cs"
    and "replaceBelow c = None \<Longrightarrow> \<not> hasHighlightMark c"
proof (induction cs and c rule: replaceFirst_replaceBelow.induct)
  case 1
  then show ?case by (simp add: anyMark_def)
next
  case (2 c cs)
  from 2(3) have n: "\<not> isHighlightMark c" "replaceBelow c = None" "replaceFirst cs = None"
    by (auto split: if_splits option.splits)
  from 2(1) [OF n(1) n(2)] 2(2) [OF n(1) n(2) n(3)] n(1) show ?case
    by (simp add: anyMark_def)
next
  case (3 tag attrs children)
  from 3(2) have "replaceFirst children = None"
    by (auto split: option.splits)
  from 3(1) [OF this] show ?case
    by (simp add: anyMark_def)
next
  case (4 s)
  then show ?case by simp
next
  case (5 s)
  then show ?case by simp
qed

lemma clearStep_cases:
  "(clearStep c = c \<and> \<not> hasHighlightMark c)
   \<or> (clearedTree (clearStep c) = clearedTree c \<and> marksBelow (clearStep c) < marksBelow c)"
proof (cases "replaceBelow c")
  case None
  with replace_none(2) [OF None] show ?thesis
    by (simp add: clearStep_def)
next
  case (Some c')
  with replace_properties(2) [OF Some] show ?thesis
    by (simp add: clearStep_def)
qed

lemma clearLoop_enough:
  assumes "marksBelow c \<le> n"
  shows "clearLoop n c = clearedTree c"
  using assms
proof (induction n arbitrary: c)
  case 0
  from clearStep_cases [of c] 0 have "\<not> hasHighlightMark c"
    by auto
  then show ?case
    by (simp add: clearedTree_without_marks)
next
  case (Suc n)
  from clearStep_cases [of c] show ?case
  proof
    assume a: "clearStep c = c \<and> \<not> hasHighlightMark c"
    have same: "clearLoop k c = c" for k
      by (induction k) (simp_all add: a)
    from a show ?thesis
      by (simp add: same clearedTree_without_marks del: clearLoop.simps)
  next
    assume a: "clearedTree (clearStep c) = clearedTree c
        \<and> marksBelow (clearStep c) < marksBelow c"
    with Suc.prems have "marksBelow (clearStep c) \<le> n" by linarith
    from Suc.IH [OF this] a show ?thesis by simp
  qed
qed

lemma clearHighlights_clearedTree: "clearHighlights c = clearedTree c"
  unfolding clearHighlights_def by (rule clearLoop_enough) simp

subsection \<open>The loop and the tree it ends with\<close>

lemma textContent_clearHighlights: "textContent (clearHighlights n) = textContent n"
  by (simp only: clearHighlights_clearedTree textContent_clearedTree)

lemma no_mark_after_clearHighlights: "\<not> hasHighlightMark (clearHighlights n)"
  by (simp only: clearHighlights_clearedTree no_mark_after_clearedTree not_False_eq_True)

lemma clearHighlights_without_marks:
  assumes "\<not> hasHighlightMark n"
  shows "clearHighlights n = n"
  unfolding clearHighlights_clearedTree by (rule clearedTree_without_marks [OF assms])


lemma highlight_then_clear_restores:
  assumes "normalizeText query \<noteq> []" "normalTree c" "\<not> hasHighlightMark c"
    "highlightMatchesInElement c query = Some c'"
  shows "clearHighlights c' = c"
  using highlight_then_clearedTree_restores [OF assms]
  by (simp only: clearHighlights_clearedTree)

lemma highlightClearCycles_text:
  assumes "list_all (\<lambda>query. normalizeText query \<noteq> []) queries"
  shows "\<exists>c'. highlightClearCycles c queries = Some c' \<and> textContent c' = textContent c"
  using assms
proof (induction queries arbitrary: c)
  case Nil
  then show ?case by simp
next
  case (Cons query queries)
  then have q: "normalizeText query \<noteq> []"
    and qs: "list_all (\<lambda>query. normalizeText query \<noteq> []) queries"
    by simp_all
  from highlightMatchesInElement_total [OF q, of c]
  obtain c1 where c1: "highlightMatchesInElement c query = Some c1" "textContent c1 = textContent c"
    by blast
  from Cons.IH [OF qs, of "clearHighlights c1"]
  obtain c' where "highlightClearCycles (clearHighlights c1) queries = Some c'"
    "textContent c' = textContent (clearHighlights c1)"
    by blast
  with c1 show ?case
    by (simp add: textContent_clearHighlights)
qed

text \<open>
  A query that is empty once normalised: if the highlight operation returns at all,
  it returns the container as it was.
\<close>

lemma highlight_blank_query_unchanged:
  assumes "normalizeText query = []" "highlightMatchesInElement c query = Some c'"
  shows "c' = c"
proof (cases c)
  case (Element tag attrs children)
  with assms highlightNode_empty_query(2) [of children] show ?thesis
    by (auto split: if_splits option.splits)
next
  case (Text s)
  with assms show ?thesis by simp
next
  case (Comment s)
  with assms show ?thesis by simp
qed

lemma highlight_then_clear_restores_any:
  assumes "normalTree c" "\<not> hasHighlightMark c" "highlightMatchesInElement c query = Some c'"
  shows "clearHighlights c' = c"
proof (cases "normalizeText query = []")
  case True
  from highlight_blank_query_unchanged [OF True assms(3)] assms(2) show ?thesis
    by (simp add: clearHighlights_without_marks)
next
  case False
  from highlight_then_clear_restores [OF False assms] show ?thesis .
qed

lemma highlightClearCycles_returned_text:
  assumes "highlightClearCycles c queries = Some c'"
  shows "textContent c' = textContent c"
  using assms
proof (induction queries arbitrary: c)
  case Nil
  then show ?case by simp
next
  case (Cons query queries)
  from Cons.prems obtain c1 where c1: "highlightMatchesInElement c query = Some c1"
    and rest: "highlightClearCycles (clearHighlights c1) queries = Some c'"
    by (auto split: option.splits)
  from Cons.IH [OF rest] have "textContent c' = textContent (clearHighlights c1)" .
  also have "\<dots> = textContent c1"
    by (rule textContent_clearHighlights)
  also have "\<dots> = textContent c"
    by (rule highlightMatchesInElement_text [OF c1])
  finally show ?case .
qed



subsection \<open>The claims about highlighting and clearing\<close>

text \<open>
  C1. Whenever the highlight operation has returned a container, for any query, the
  container has the flattened text it had before, and the clear operation after it
  gives a container with that same text and without any highlight mark; when the
  container was in normal form and had no highlight mark before, clearing gives back
  exactly the tree from before, the fragments merged into the text nodes they came
  from. The highlight operation returns for every query that is not empty once it is
  normalised; these are the queries \<open>findFirstMatchAndAct\<close> passes, a normalised
  non-empty input. After any number of apply-and-clear cycles that have returned the
  text is the same, and the cycles return when no query of them is blank. Clearing a
  container that was never highlighted keeps its text, and keeps the whole container
  when it holds no highlight mark.
\<close>

theorem highlight_clear_round_trip:
  "(\<forall>c'. highlightMatchesInElement c query = Some c' \<longrightarrow>
        textContent c' = textContent c
      \<and> textContent (clearHighlights c') = textContent c
      \<and> \<not> hasHighlightMark (clearHighlights c')
      \<and> (normalTree c \<and> \<not> hasHighlightMark c \<longrightarrow> clearHighlights c' = c))
   \<and> (normalizeText query \<noteq> [] \<longrightarrow> (\<exists>c'. highlightMatchesInElement c query = Some c'))
   \<and> (normalizeText input \<noteq> [] \<longrightarrow>
        (\<exists>c'. highlightMatchesInElement c (normalizeText input) = Some c'))
   \<and> textContent (clearHighlights c) = textContent c
   \<and> (\<not> hasHighlightMark c \<longrightarrow> clearHighlights c = c)
   \<and> (\<forall>c''. highlightClearCycles c queries = Some c'' \<longrightarrow> textContent c'' = textContent c)
   \<and> (list_all (\<lambda>q. normalizeText q \<noteq> []) queries \<longrightarrow>
        (\<exists>c''. highlightClearCycles c queries = Some c''))"
proof -
  have a: "\<forall>c'. highlightMatchesInElement c query = Some c' \<longrightarrow>
        textContent c' = textContent c
      \<and> textContent (clearHighlights c') = textContent c
      \<and> \<not> hasHighlightMark (clearHighlights c')
      \<and> (normalTree c \<and> \<not> hasHighlightMark c \<longrightarrow> clearHighlights c' = c)"
    using highlightMatchesInElement_text [of c query]
      highlight_then_clear_restores_any [of c query]
    by (simp add: textContent_clearHighlights no_mark_after_clearHighlights)
  have b: "normalizeText query \<noteq> [] \<longrightarrow> (\<exists>c'. highlightMatchesInElement c query = Some c')"
    using highlightMatchesInElement_total [of query c] by blast
  have c: "normalizeText input \<noteq> [] \<longrightarrow>
        (\<exists>c'. highlightMatchesInElement c (normalizeText input) = Some c')"
    using highlightMatchesInElement_total [of "normalizeText input" c]
    by (simp only: normalizeText_idem) blast
  have d: "\<forall>c''. highlightClearCycles c queries = Some c'' \<longrightarrow> textContent c'' = textContent c"
    using highlightClearCycles_returned_text [of c queries] by blast
  have e: "list_all (\<lambda>q. normalizeText q \<noteq> []) queries \<longrightarrow>
        (\<exists>c''. highlightClearCycles c queries = Some c'')"
    using highlightClearCycles_text [of queries c] by blast
  from a b c d e show ?thesis
    by (simp add: textContent_clearHighlights clearHighlights_without_marks)
qed

lemma apiParagraph_facts:
  "normalizeText ''API'' \<noteq> []"
  "normalTree apiParagraph"
  "\<not> hasHighlightMark apiParagraph"
  "list_all (\<lambda>q. normalizeText q \<noteq> []) [''API'', '' keys'']"
  by code_simp+

theorem highlight_clear_round_trip_witness:
  "normalizeText ''API'' \<noteq> []
   \<and> normalTree apiParagraph \<and> \<not> hasHighlightMark apiParagraph
   \<and> (\<exists>c'. highlightMatchesInElement apiParagraph ''API'' = Some c'
          \<and> textContent (clearHighlights c') = textContent apiParagraph
          \<and> clearHighlights c' = apiParagraph)
   \<and> (\<exists>c'. highlightMatchesInElement apiParagraph (normalizeText ''API'') = Some c')
   \<and> clearHighlights apiParagraph = apiParagraph
   \<and> list_all (\<lambda>q. normalizeText q \<noteq> []) [''API'', '' keys'']
   \<and> (\<exists>c''. highlightClearCycles apiParagraph [''API'', '' keys''] = Some c''
          \<and> textContent c'' = textContent apiParagraph)"
  using apiParagraph_facts
    highlight_clear_round_trip [of apiParagraph "''API''" "''API''" "[''API'', '' keys'']"]
  by blast

text \<open>
  C2 at the failing input: a title whose text node is \<open>api\<close> after a leading space,
  and the query \<open>api\<close>. The match is found at index 0 of the trimmed lower-case copy
  and cut out of the untrimmed original: the mark holds the space and \<open>ap\<close>, which is
  not the query in any case, and the \<open>i\<close> stays outside.
\<close>

theorem leading_space_mark_misplaced:
  "highlightMatchesInElement leadingSpaceTitle ''api''
     = Some (Element ''h3'' [] [markElement '' ap'', Text ''i''])
   \<and> toLowerCase '' ap'' \<noteq> toLowerCase ''api''"
  by code_simp





section \<open>Properties of the search controller\<close>

subsection \<open>One entry and one click\<close>

lemma updateItem_frame:
  "length (faqItems (updateItem i f st)) = length (faqItems st)"
  "searchOpenedItems (updateItem i f st) = searchOpenedItems st"
  "clickLog (updateItem i f st) = clickLog st"
  "scrollLog (updateItem i f st) = scrollLog st"
  by (simp_all add: updateItem_def)

lemma updateItem_nth:
  "faqItems (updateItem i f st) ! j =
     (if j = i \<and> i < length (faqItems st) then f (faqItems st ! j) else faqItems st ! j)"
  by (cases "i < length (faqItems st)")
    (simp_all add: updateItem_def nth_list_update list_update_beyond)

lemma clickQuestionWrapper_frame:
  "length (faqItems (clickQuestionWrapper who i st)) = length (faqItems st)"
  "searchOpenedItems (clickQuestionWrapper who i st) = searchOpenedItems st"
  "clickLog (clickQuestionWrapper who i st) = clickLog st @ [(who, i)]"
  "scrollLog (clickQuestionWrapper who i st) = scrollLog st"
  by (simp_all add: clickQuestionWrapper_def updateItem_def)

lemma clickQuestionWrapper_nth:
  "faqItems (clickQuestionWrapper who i st) ! j =
     (if j = i \<and> i < length (faqItems st)
      then (faqItems st ! j)\<lparr> isFaqItemOpen := \<not> isFaqItemOpen (faqItems st ! j),
                               openedBySearchAttr := Some ''true'' \<rparr>
      else faqItems st ! j)"
  by (cases "i < length (faqItems st)")
    (simp_all add: clickQuestionWrapper_def updateItem_def nth_list_update list_update_beyond)

lemma clicksOn_clickQuestionWrapper:
  "clicksOn j (clickQuestionWrapper who i st) =
     (if j = i then clicksOn j st @ [(who, i)] else clicksOn j st)"
  by (simp add: clicksOn_def clickQuestionWrapper_frame)

subsection \<open>Closing an entry of the set\<close>

lemma closeSearchOpened_frame:
  "length (faqItems (closeSearchOpened i st)) = length (faqItems st)"
  "searchOpenedItems (closeSearchOpened i st) = searchOpenedItems st - {i}"
  "scrollLog (closeSearchOpened i st) = scrollLog st"
  "set (clickLog st) \<subseteq> set (clickLog (closeSearchOpened i st))"
  by (auto simp: closeSearchOpened_def Let_def updateItem_frame clickQuestionWrapper_frame)

lemma closeSearchOpened_other:
  assumes "j \<noteq> i"
  shows "faqItems (closeSearchOpened i st) ! j = faqItems st ! j"
    and "clicksOn j (closeSearchOpened i st) = clicksOn j st"
  using assms
  by (simp_all add: closeSearchOpened_def Let_def updateItem_nth clickQuestionWrapper_nth
      clickQuestionWrapper_frame clicksOn_def updateItem_frame)

lemma closeSearchOpened_regions:
  "questionTitle (faqItems (closeSearchOpened i st) ! j) = questionTitle (faqItems st ! j)"
  "answer (faqItems (closeSearchOpened i st) ! j) = answer (faqItems st ! j)"
  "questionWrapper (faqItems (closeSearchOpened i st) ! j) = questionWrapper (faqItems st ! j)"
  by (simp_all add: closeSearchOpened_def Let_def updateItem_nth clickQuestionWrapper_nth
      clickQuestionWrapper_frame)

lemma closedFrom_refl: "closedFrom st st"
  by (simp add: closedFrom_def)

lemma closedFrom_step:
  assumes "closedFrom st s" "i \<in> searchOpenedItems s"
  shows "closedFrom st (closeSearchOpened i s)"
proof -
  from assms have i: "i \<in> searchOpenedItems st"
    by (auto simp: closedFrom_def)
  have other: "\<And>k. k \<notin> searchOpenedItems st \<Longrightarrow> k \<noteq> i"
    using i by auto
  show ?thesis
    using assms(1) closeSearchOpened_frame(4) [of s i]
    unfolding closedFrom_def
    by (auto simp: closeSearchOpened_frame(1,2,3) closeSearchOpened_regions
        closeSearchOpened_other [OF other])
qed

lemma fold_closedFrom:
  assumes "closedFrom st s"
  shows "closedFrom st
           (fold (\<lambda>i s. if i \<in> searchOpenedItems s \<and> C i s then closeSearchOpened i s else s)
              xs s)"
  using assms
proof (induction xs arbitrary: s)
  case Nil
  then show ?case by simp
next
  case (Cons x xs)
  then show ?case
    by (simp add: closedFrom_step)
qed

lemma closeAll_closedFrom: "closedFrom st (closeAll st)"
  using fold_closedFrom [OF closedFrom_refl, where C = "\<lambda>i s. True"]
  by (simp add: closeAll_def)

lemma closeNonMatching_closedFrom: "closedFrom st (closeNonMatching q st)"
  unfolding closeNonMatching_def
  by (rule fold_closedFrom [OF closedFrom_refl,
        where C = "\<lambda>i s. \<not> itemMatchesQuery (faqItems s ! i) q"])

subsection \<open>The invariant of the set\<close>

lemma searchOpenedInvariant_close:
  assumes "searchOpenedInvariant st"
  shows "searchOpenedInvariant (closeSearchOpened i st)"
  unfolding searchOpenedInvariant_def
proof
  fix k
  assume "k \<in> searchOpenedItems (closeSearchOpened i st)"
  then have k: "k \<in> searchOpenedItems st" "k \<noteq> i"
    by (simp_all add: closeSearchOpened_frame)
  with assms have "k < length (faqItems st)" "questionWrapper (faqItems st ! k)"
    "openedBySearchAttr (faqItems st ! k) = Some ''true''"
    "(SearchController, k) \<in> set (clickLog st)"
    by (simp_all add: searchOpenedInvariant_def)
  then show "k < length (faqItems (closeSearchOpened i st))
        \<and> questionWrapper (faqItems (closeSearchOpened i st) ! k)
        \<and> openedBySearchAttr (faqItems (closeSearchOpened i st) ! k) = Some ''true''
        \<and> (SearchController, k) \<in> set (clickLog (closeSearchOpened i st))"
    using closeSearchOpened_frame(4) [of st i] k(2)
    by (auto simp: closeSearchOpened_frame(1) closeSearchOpened_other(1))
qed

lemma fold_searchOpenedInvariant:
  assumes "searchOpenedInvariant s"
  shows "searchOpenedInvariant
           (fold (\<lambda>i s. if i \<in> searchOpenedItems s \<and> C i s then closeSearchOpened i s else s)
              xs s)"
  using assms
proof (induction xs arbitrary: s)
  case Nil
  then show ?case by simp
next
  case (Cons x xs)
  then show ?case
    by (simp add: searchOpenedInvariant_close)
qed

lemma searchOpenedInvariant_closeAll:
  "searchOpenedInvariant st \<Longrightarrow> searchOpenedInvariant (closeAll st)"
  using fold_searchOpenedInvariant [where C = "\<lambda>i s. True"]
  by (simp add: closeAll_def)

lemma searchOpenedInvariant_closeNonMatching:
  "searchOpenedInvariant st \<Longrightarrow> searchOpenedInvariant (closeNonMatching q st)"
  unfolding closeNonMatching_def
  by (rule fold_searchOpenedInvariant
        [where C = "\<lambda>i s. \<not> itemMatchesQuery (faqItems s ! i) q"])

lemma searchOpenedInvariant_userClick:
  assumes "searchOpenedInvariant st"
  shows "searchOpenedInvariant (userClick j st)"
  using assms
  by (auto simp: searchOpenedInvariant_def userClick_def clickQuestionWrapper_frame
      clickQuestionWrapper_nth)

lemma searchOpenedItems_userClick: "searchOpenedItems (userClick j st) = searchOpenedItems st"
  by (simp add: userClick_def clickQuestionWrapper_frame)

subsection \<open>The matching loop\<close>

lemma highlightRegion_total:
  assumes "normalizeText q \<noteq> []"
  shows "\<exists>r. highlightRegion el q = Some r
           \<and> map_option textContent r = map_option textContent el"
proof (cases el)
  case None
  then show ?thesis by (simp add: highlightRegion_def)
next
  case (Some n)
  from highlightMatchesInElement_total [OF assms, of n]
  show ?thesis using Some by (auto simp: highlightRegion_def)
qed

lemma matchLoop_items:
  assumes "normalizeText q \<noteq> []"
  shows "\<exists>xs' found. matchLoop q k xs firstMatched = Some (xs', found)
     \<and> length xs' = length xs
     \<and> (\<forall>j < length xs. itemFlags (xs' ! j) = itemFlags (xs ! j)
           \<and> (if itemMatchesQuery (xs ! j) q
               then highlightRegion (questionTitle (xs ! j)) q = Some (questionTitle (xs' ! j))
                  \<and> highlightRegion (answer (xs ! j)) q = Some (answer (xs' ! j))
               else xs' ! j = xs ! j))"
proof (induction xs arbitrary: k firstMatched)
  case Nil
  then show ?case by simp
next
  case (Cons x xs)
  show ?case
  proof (cases "itemMatchesQuery x q")
    case True
    from highlightRegion_total [OF assms, of "questionTitle x"]
    obtain t where t: "highlightRegion (questionTitle x) q = Some t" by blast
    from highlightRegion_total [OF assms, of "answer x"]
    obtain a where a: "highlightRegion (answer x) q = Some a" by blast
    from Cons [of "Suc k" "if firstMatched = None then Some k else firstMatched"]
    obtain xs' found where r:
      "matchLoop q (Suc k) xs (if firstMatched = None then Some k else firstMatched)
         = Some (xs', found)"
      "length xs' = length xs"
      "\<forall>j < length xs. itemFlags (xs' ! j) = itemFlags (xs ! j)
           \<and> (if itemMatchesQuery (xs ! j) q
               then highlightRegion (questionTitle (xs ! j)) q = Some (questionTitle (xs' ! j))
                  \<and> highlightRegion (answer (xs ! j)) q = Some (answer (xs' ! j))
               else xs' ! j = xs ! j)"
      by blast
    let ?x' = "x\<lparr> questionTitle := t, answer := a \<rparr>"
    have m: "matchLoop q k (x # xs) firstMatched = Some (?x' # xs', found)"
      using True t a r(1) by (simp add: itemMatchesQuery_def)
    have "\<forall>j < length (x # xs). itemFlags ((?x' # xs') ! j) = itemFlags ((x # xs) ! j)
           \<and> (if itemMatchesQuery ((x # xs) ! j) q
               then highlightRegion (questionTitle ((x # xs) ! j)) q
                      = Some (questionTitle ((?x' # xs') ! j))
                  \<and> highlightRegion (answer ((x # xs) ! j)) q = Some (answer ((?x' # xs') ! j))
               else (?x' # xs') ! j = (x # xs) ! j)"
    proof (intro allI impI)
      fix j
      assume "j < length (x # xs)"
      then show "itemFlags ((?x' # xs') ! j) = itemFlags ((x # xs) ! j)
           \<and> (if itemMatchesQuery ((x # xs) ! j) q
               then highlightRegion (questionTitle ((x # xs) ! j)) q
                      = Some (questionTitle ((?x' # xs') ! j))
                  \<and> highlightRegion (answer ((x # xs) ! j)) q = Some (answer ((?x' # xs') ! j))
               else (?x' # xs') ! j = (x # xs) ! j)"
        using True t a r(3) by (cases j) (simp_all add: itemFlags_def)
    qed
    with m r(2) show ?thesis by simp
  next
    case False
    from Cons [of "Suc k" firstMatched]
    obtain xs' found where r:
      "matchLoop q (Suc k) xs firstMatched = Some (xs', found)"
      "length xs' = length xs"
      "\<forall>j < length xs. itemFlags (xs' ! j) = itemFlags (xs ! j)
           \<and> (if itemMatchesQuery (xs ! j) q
               then highlightRegion (questionTitle (xs ! j)) q = Some (questionTitle (xs' ! j))
                  \<and> highlightRegion (answer (xs ! j)) q = Some (answer (xs' ! j))
               else xs' ! j = xs ! j)"
      by blast
    have m: "matchLoop q k (x # xs) firstMatched = Some (x # xs', found)"
      using False r(1) by (simp add: itemMatchesQuery_def)
    have "\<forall>j < length (x # xs). itemFlags ((x # xs') ! j) = itemFlags ((x # xs) ! j)
           \<and> (if itemMatchesQuery ((x # xs) ! j) q
               then highlightRegion (questionTitle ((x # xs) ! j)) q
                      = Some (questionTitle ((x # xs') ! j))
                  \<and> highlightRegion (answer ((x # xs) ! j)) q = Some (answer ((x # xs') ! j))
               else (x # xs') ! j = (x # xs) ! j)"
    proof (intro allI impI)
      fix j
      assume "j < length (x # xs)"
      then show "itemFlags ((x # xs') ! j) = itemFlags ((x # xs) ! j)
           \<and> (if itemMatchesQuery ((x # xs) ! j) q
               then highlightRegion (questionTitle ((x # xs) ! j)) q
                      = Some (questionTitle ((x # xs') ! j))
                  \<and> highlightRegion (answer ((x # xs) ! j)) q = Some (answer ((x # xs') ! j))
               else (x # xs') ! j = (x # xs) ! j)"
        using False r(3) by (cases j) simp_all
    qed
    with m r(2) show ?thesis by simp
  qed
qed

text \<open>The entry found is the one that was found before, or the first that matches.\<close>

lemma matchLoop_found_before:
  assumes "matchLoop q k xs (Some f) = Some (xs', found)"
  shows "found = Some f"
  using assms
proof (induction xs arbitrary: k xs')
  case Nil
  then show ?case by simp
next
  case (Cons x xs)
  then show ?case
    by (auto split: if_splits option.splits prod.splits)
qed

lemma matchLoop_found_none:
  assumes "matchLoop q k xs None = Some (xs', found)"
    "\<forall>j < length xs. \<not> itemMatchesQuery (xs ! j) q"
  shows "found = None"
  using assms
proof (induction xs arbitrary: k xs')
  case Nil
  then show ?case by simp
next
  case (Cons x xs)
  from Cons.prems(2) have x: "\<not> itemMatchesQuery x q"
    and xs: "\<forall>j < length xs. \<not> itemMatchesQuery (xs ! j) q"
    by auto
  from Cons.prems(1) x obtain ys where "matchLoop q (Suc k) xs None = Some (ys, found)"
    by (auto simp: itemMatchesQuery_def split: option.splits prod.splits)
  from Cons.IH [OF this xs] show ?case .
qed

lemma matchLoop_found_first:
  assumes "matchLoop q k xs None = Some (xs', found)"
    "f < length xs" "itemMatchesQuery (xs ! f) q"
    "\<forall>j < f. \<not> itemMatchesQuery (xs ! j) q"
  shows "found = Some (k + f)"
  using assms
proof (induction xs arbitrary: k f xs')
  case Nil
  then show ?case by simp
next
  case (Cons x xs)
  show ?case
  proof (cases f)
    case 0
    with Cons.prems(3) have x: "itemMatchesQuery x q" by simp
    with Cons.prems(1) obtain ys where "matchLoop q (Suc k) xs (Some k) = Some (ys, found)"
      by (auto simp: itemMatchesQuery_def split: option.splits prod.splits)
    from matchLoop_found_before [OF this] 0 show ?thesis by simp
  next
    case (Suc g)
    with Cons.prems have g: "g < length xs" "itemMatchesQuery (xs ! g) q"
      "\<forall>j < g. \<not> itemMatchesQuery (xs ! j) q" and x: "\<not> itemMatchesQuery x q"
      by auto
    from Cons.prems(1) x obtain ys where "matchLoop q (Suc k) xs None = Some (ys, found)"
      by (auto simp: itemMatchesQuery_def split: option.splits prod.splits)
    from Cons.IH [OF this g] Suc show ?thesis by simp
  qed
qed

subsection \<open>clearItem\<close>

lemma isMatch_clearHighlights:
  "isMatch (map_option clearHighlights el) q = isMatch el q"
  by (cases el) (simp_all add: isMatch_def textContent_clearHighlights)

lemma itemMatchesQuery_clearItem: "itemMatchesQuery (clearItem els) q = itemMatchesQuery els q"
  by (simp add: itemMatchesQuery_def clearItem_def isMatch_clearHighlights)

lemma itemFlags_clearItem: "itemFlags (clearItem els) = itemFlags els"
  by (simp add: itemFlags_def clearItem_def)

lemma itemText_clearItem: "itemText (clearItem els) = itemText els"
  by (cases "questionTitle els"; cases "answer els")
    (simp_all add: itemText_def clearItem_def textContent_clearHighlights)

lemma matchLoop_found_bound:
  assumes "matchLoop q k xs firstMatched = Some (xs', Some f)"
  shows "firstMatched = Some f \<or> (k \<le> f \<and> f < k + length xs)"
  using assms
proof (induction xs arbitrary: k firstMatched xs')
  case Nil
  then show ?case by simp
next
  case (Cons x xs)
  show ?case
  proof (cases "itemMatchesQuery x q")
    case True
    with Cons.prems obtain ys where
      "matchLoop q (Suc k) xs (if firstMatched = None then Some k else firstMatched)
         = Some (ys, Some f)"
      by (auto simp: itemMatchesQuery_def split: option.splits prod.splits)
    from Cons.IH [OF this] show ?thesis
      by (auto split: if_splits)
  next
    case False
    with Cons.prems obtain ys where "matchLoop q (Suc k) xs firstMatched = Some (ys, Some f)"
      by (auto simp: itemMatchesQuery_def split: option.splits prod.splits)
    from Cons.IH [OF this] show ?thesis
      by auto
  qed
qed

subsection \<open>openFaqItem\<close>

lemma openFaqItem_skipped:
  assumes "\<not> questionWrapper (faqItems st ! i) \<or> openedBySearchAttr (faqItems st ! i) = Some ''true''"
  shows "openFaqItem i st = st"
  using assms by (auto simp: openFaqItem_def)

lemma openFaqItem_opened:
  assumes "questionWrapper (faqItems st ! i)" "openedBySearchAttr (faqItems st ! i) \<noteq> Some ''true''"
  shows "length (faqItems (openFaqItem i st)) = length (faqItems st)"
    and "scrollLog (openFaqItem i st) = scrollLog st"
    and "clickLog (openFaqItem i st) = clickLog st @ [(SearchController, i)]"
    and "searchOpenedItems (openFaqItem i st) = insert i (searchOpenedItems st)"
    and "j \<noteq> i \<Longrightarrow> faqItems (openFaqItem i st) ! j = faqItems st ! j"
    and "i < length (faqItems st) \<Longrightarrow>
           faqItems (openFaqItem i st) ! i
             = (faqItems st ! i)\<lparr> isFaqItemOpen := \<not> isFaqItemOpen (faqItems st ! i),
                                   openedBySearchAttr := Some ''true'' \<rparr>"
  using assms
  by (simp_all add: openFaqItem_def Let_def updateItem_frame updateItem_nth
      clickQuestionWrapper_frame clickQuestionWrapper_nth)

lemma openFaqItem_length: "length (faqItems (openFaqItem i st)) = length (faqItems st)"
  by (cases "questionWrapper (faqItems st ! i) \<and> openedBySearchAttr (faqItems st ! i) \<noteq> Some ''true''")
    (auto simp: openFaqItem_opened(1) openFaqItem_skipped)

lemma openFaqItem_other:
  assumes "j \<noteq> i"
  shows "faqItems (openFaqItem i st) ! j = faqItems st ! j"
    and "clicksOn j (openFaqItem i st) = clicksOn j st"
    and "(j \<in> searchOpenedItems (openFaqItem i st)) = (j \<in> searchOpenedItems st)"
  using assms
  by (cases "questionWrapper (faqItems st ! i) \<and> openedBySearchAttr (faqItems st ! i) \<noteq> Some ''true''";
      auto simp: openFaqItem_opened openFaqItem_skipped clicksOn_def)+

lemma searchOpenedInvariant_openFaqItem:
  assumes "searchOpenedInvariant st" "i < length (faqItems st)"
  shows "searchOpenedInvariant (openFaqItem i st)"
proof (cases "questionWrapper (faqItems st ! i) \<and> openedBySearchAttr (faqItems st ! i) \<noteq> Some ''true''")
  case True
  then have w: "questionWrapper (faqItems st ! i)"
    and a: "openedBySearchAttr (faqItems st ! i) \<noteq> Some ''true''"
    by simp_all
  note o = openFaqItem_opened [OF w a]
  show ?thesis
    unfolding searchOpenedInvariant_def
  proof
    fix k
    assume k: "k \<in> searchOpenedItems (openFaqItem i st)"
    show "k < length (faqItems (openFaqItem i st))
        \<and> questionWrapper (faqItems (openFaqItem i st) ! k)
        \<and> openedBySearchAttr (faqItems (openFaqItem i st) ! k) = Some ''true''
        \<and> (SearchController, k) \<in> set (clickLog (openFaqItem i st))"
    proof (cases "k = i")
      case True
      with assms(2) w show ?thesis
        by (simp add: o(1) o(3) o(6))
    next
      case False
      with k have "k \<in> searchOpenedItems st"
        by (simp add: o(4))
      with assms(1) have "k < length (faqItems st)" "questionWrapper (faqItems st ! k)"
        "openedBySearchAttr (faqItems st ! k) = Some ''true''"
        "(SearchController, k) \<in> set (clickLog st)"
        by (simp_all add: searchOpenedInvariant_def)
      with False show ?thesis
        by (simp add: o(1) o(3) o(5))
    qed
  qed
next
  case False
  then have "openFaqItem i st = st"
    by (intro openFaqItem_skipped) auto
  with assms(1) show ?thesis by simp
qed

subsection \<open>findFirstMatchAndAct\<close>

lemma findFirstMatchAndAct_unfold:
  assumes "normalizeText query \<noteq> []"
  shows "\<exists>items' found.
          matchLoop (normalizeText query) 0 (map clearItem (faqItems st)) None = Some (items', found)
        \<and> findFirstMatchAndAct query st =
            Some (case found of
                    None \<Rightarrow> st\<lparr> faqItems := items' \<rparr>
                  | Some f \<Rightarrow> openFaqItem f (st\<lparr> faqItems := items', scrollLog := scrollLog st @ [f] \<rparr>))
        \<and> length items' = length (faqItems st)
        \<and> (\<forall>j < length (faqItems st). itemFlags (items' ! j) = itemFlags (faqItems st ! j))
        \<and> (\<forall>j < length (faqItems st).
              if itemMatchesQuery (faqItems st ! j) (normalizeText query)
              then highlightRegion (map_option clearHighlights (questionTitle (faqItems st ! j)))
                     (normalizeText query) = Some (questionTitle (items' ! j))
                 \<and> highlightRegion (map_option clearHighlights (answer (faqItems st ! j)))
                     (normalizeText query) = Some (answer (items' ! j))
              else items' ! j = clearItem (faqItems st ! j))
        \<and> (\<forall>f. found = Some f \<longrightarrow> f < length (faqItems st))"
proof -
  let ?q = "normalizeText query"
  have q: "normalizeText ?q \<noteq> []"
    using assms by (simp add: normalizeText_idem)
  from matchLoop_items [OF q, of 0 "map clearItem (faqItems st)" None]
  obtain items' found where m:
    "matchLoop ?q 0 (map clearItem (faqItems st)) None = Some (items', found)"
    "length items' = length (faqItems st)"
    "\<forall>j < length (faqItems st). itemFlags (items' ! j) = itemFlags (map clearItem (faqItems st) ! j)
           \<and> (if itemMatchesQuery (map clearItem (faqItems st) ! j) ?q
               then highlightRegion (questionTitle (map clearItem (faqItems st) ! j)) ?q
                      = Some (questionTitle (items' ! j))
                  \<and> highlightRegion (answer (map clearItem (faqItems st) ! j)) ?q
                      = Some (answer (items' ! j))
               else items' ! j = map clearItem (faqItems st) ! j)"
    by auto
  have flags: "\<forall>j < length (faqItems st). itemFlags (items' ! j) = itemFlags (faqItems st ! j)"
    using m(3) by (simp add: itemFlags_clearItem)
  have regions: "\<forall>j < length (faqItems st).
              if itemMatchesQuery (faqItems st ! j) ?q
              then highlightRegion (map_option clearHighlights (questionTitle (faqItems st ! j))) ?q
                     = Some (questionTitle (items' ! j))
                 \<and> highlightRegion (map_option clearHighlights (answer (faqItems st ! j))) ?q
                     = Some (answer (items' ! j))
              else items' ! j = clearItem (faqItems st ! j)"
  proof (intro allI impI)
    fix j
    assume j: "j < length (faqItems st)"
    have t: "questionTitle (clearItem (faqItems st ! j))
               = map_option clearHighlights (questionTitle (faqItems st ! j))"
      "answer (clearItem (faqItems st ! j))
               = map_option clearHighlights (answer (faqItems st ! j))"
      by (simp_all add: clearItem_def)
    have n: "map clearItem (faqItems st) ! j = clearItem (faqItems st ! j)"
      using j by simp
    from m(3) j have "if itemMatchesQuery (clearItem (faqItems st ! j)) ?q
               then highlightRegion (questionTitle (clearItem (faqItems st ! j))) ?q
                      = Some (questionTitle (items' ! j))
                  \<and> highlightRegion (answer (clearItem (faqItems st ! j))) ?q
                      = Some (answer (items' ! j))
               else items' ! j = clearItem (faqItems st ! j)"
      unfolding n [symmetric] by blast
    then show "if itemMatchesQuery (faqItems st ! j) ?q
              then highlightRegion (map_option clearHighlights (questionTitle (faqItems st ! j))) ?q
                     = Some (questionTitle (items' ! j))
                 \<and> highlightRegion (map_option clearHighlights (answer (faqItems st ! j))) ?q
                     = Some (answer (items' ! j))
              else items' ! j = clearItem (faqItems st ! j)"
      unfolding itemMatchesQuery_clearItem t .
  qed
  have bound: "\<forall>f. found = Some f \<longrightarrow> f < length (faqItems st)"
    using matchLoop_found_bound [of ?q 0 "map clearItem (faqItems st)" None items'] m(1)
    by auto
  have "findFirstMatchAndAct query st =
            Some (case found of
                    None \<Rightarrow> st\<lparr> faqItems := items' \<rparr>
                  | Some f \<Rightarrow> openFaqItem f (st\<lparr> faqItems := items', scrollLog := scrollLog st @ [f] \<rparr>))"
    using assms m(1) by (simp add: findFirstMatchAndAct_def Let_def split: option.splits)
  with m(1) m(2) flags regions bound show ?thesis by blast
qed

subsection \<open>onSearch\<close>

lemma closedFrom_itemText:
  assumes "closedFrom st s"
  shows "map itemText (faqItems s) = map itemText (faqItems st)"
proof (rule nth_equalityI)
  show "length (map itemText (faqItems s)) = length (map itemText (faqItems st))"
    using assms by (simp add: closedFrom_def)
next
  fix j
  assume "j < length (map itemText (faqItems s))"
  with assms have j: "j < length (faqItems st)" "j < length (faqItems s)"
    by (simp_all add: closedFrom_def)
  with assms have "questionTitle (faqItems s ! j) = questionTitle (faqItems st ! j)"
    "answer (faqItems s ! j) = answer (faqItems st ! j)"
    by (simp_all add: closedFrom_def)
  with j show "map itemText (faqItems s) ! j = map itemText (faqItems st) ! j"
    by (simp add: itemText_def)
qed

lemma onSearch_empty:
  assumes "trim inputValue = []"
  shows "onSearch inputValue st
           = Some (closeAll (st\<lparr> faqItems := map clearItem (faqItems st) \<rparr>))"
  using assms by (simp add: onSearch_def)

lemma onSearch_nonempty:
  assumes "trim inputValue \<noteq> []"
  shows "onSearch inputValue st
           = findFirstMatchAndAct inputValue (closeNonMatching (normalizeText inputValue) st)"
  using assms by (simp add: onSearch_def)

lemma searchOpenedInvariant_regions:
  assumes "searchOpenedInvariant s" "length items' = length (faqItems s)"
    "\<forall>j < length (faqItems s). itemFlags (items' ! j) = itemFlags (faqItems s ! j)"
  shows "searchOpenedInvariant (s\<lparr> faqItems := items' \<rparr>)"
    and "searchOpenedInvariant (s\<lparr> faqItems := items', scrollLog := l \<rparr>)"
  using assms by (auto simp: searchOpenedInvariant_def itemFlags_def)

lemma onSearch_invariant:
  assumes "searchOpenedInvariant st"
  shows "\<exists>st'. onSearch inputValue st = Some st' \<and> searchOpenedInvariant st'"
proof (cases "trim inputValue = []")
  case True
  have "searchOpenedInvariant (st\<lparr> faqItems := map clearItem (faqItems st) \<rparr>)"
    by (rule searchOpenedInvariant_regions(1) [OF assms]) (simp_all add: itemFlags_clearItem)
  then show ?thesis
    by (simp add: onSearch_empty [OF True] searchOpenedInvariant_closeAll)
next
  case False
  let ?s = "closeNonMatching (normalizeText inputValue) st"
  have inv: "searchOpenedInvariant ?s"
    by (rule searchOpenedInvariant_closeNonMatching [OF assms])
  from findFirstMatchAndAct_unfold [OF normalizeText_nonempty [OF False], of ?s]
  obtain items' found where u:
    "findFirstMatchAndAct inputValue ?s =
            Some (case found of
                    None \<Rightarrow> ?s\<lparr> faqItems := items' \<rparr>
                  | Some f \<Rightarrow> openFaqItem f (?s\<lparr> faqItems := items', scrollLog := scrollLog ?s @ [f] \<rparr>))"
    "length items' = length (faqItems ?s)"
    "\<forall>j < length (faqItems ?s). itemFlags (items' ! j) = itemFlags (faqItems ?s ! j)"
    "\<forall>f. found = Some f \<longrightarrow> f < length (faqItems ?s)"
    by blast
  have "searchOpenedInvariant (case found of
                    None \<Rightarrow> ?s\<lparr> faqItems := items' \<rparr>
                  | Some f \<Rightarrow> openFaqItem f (?s\<lparr> faqItems := items', scrollLog := scrollLog ?s @ [f] \<rparr>))"
  proof (cases found)
    case None
    then show ?thesis
      using searchOpenedInvariant_regions(1) [OF inv u(2) u(3)] by simp
  next
    case (Some f)
    with u(4) u(2) have "f < length (faqItems (?s\<lparr> faqItems := items', scrollLog := scrollLog ?s @ [f] \<rparr>))"
      by simp
    from searchOpenedInvariant_openFaqItem
      [OF searchOpenedInvariant_regions(2) [OF inv u(2) u(3)] this]
    show ?thesis using Some by simp
  qed
  with u(1) show ?thesis
    by (simp add: onSearch_nonempty [OF False])
qed

lemma onSearch_protected:
  assumes "i < length (faqItems st)" "i \<notin> searchOpenedItems st"
    "openedBySearchAttr (faqItems st ! i) = Some ''true''"
  shows "\<exists>st'. onSearch inputValue st = Some st'
           \<and> length (faqItems st') = length (faqItems st)
           \<and> i \<notin> searchOpenedItems st'
           \<and> itemFlags (faqItems st' ! i) = itemFlags (faqItems st ! i)
           \<and> clicksOn i st' = clicksOn i st"
proof (cases "trim inputValue = []")
  case True
  let ?s0 = "st\<lparr> faqItems := map clearItem (faqItems st) \<rparr>"
  have c: "closedFrom ?s0 (closeAll ?s0)"
    by (rule closeAll_closedFrom)
  have i0: "i \<notin> searchOpenedItems ?s0"
    using assms(2) by simp
  from c i0 have "faqItems (closeAll ?s0) ! i = faqItems ?s0 ! i"
    "clicksOn i (closeAll ?s0) = clicksOn i ?s0"
    "length (faqItems (closeAll ?s0)) = length (faqItems ?s0)"
    "i \<notin> searchOpenedItems (closeAll ?s0)"
    by (auto simp: closedFrom_def)
  then show ?thesis
    using assms(1)
    by (simp add: onSearch_empty [OF True] itemFlags_clearItem clicksOn_def)
next
  case False
  let ?s = "closeNonMatching (normalizeText inputValue) st"
  have c: "closedFrom st ?s"
    by (rule closeNonMatching_closedFrom)
  from c assms(2) have s: "faqItems ?s ! i = faqItems st ! i" "clicksOn i ?s = clicksOn i st"
    "length (faqItems ?s) = length (faqItems st)" "i \<notin> searchOpenedItems ?s"
    by (auto simp: closedFrom_def)
  from findFirstMatchAndAct_unfold [OF normalizeText_nonempty [OF False], of ?s]
  obtain items' found where u:
    "findFirstMatchAndAct inputValue ?s =
            Some (case found of
                    None \<Rightarrow> ?s\<lparr> faqItems := items' \<rparr>
                  | Some f \<Rightarrow> openFaqItem f (?s\<lparr> faqItems := items', scrollLog := scrollLog ?s @ [f] \<rparr>))"
    "length items' = length (faqItems ?s)"
    "\<forall>j < length (faqItems ?s). itemFlags (items' ! j) = itemFlags (faqItems ?s ! j)"
    by blast
  from u(3) assms(1) s have fl: "itemFlags (items' ! i) = itemFlags (faqItems st ! i)"
    by simp
  let ?r = "case found of
                    None \<Rightarrow> ?s\<lparr> faqItems := items' \<rparr>
                  | Some f \<Rightarrow> openFaqItem f (?s\<lparr> faqItems := items', scrollLog := scrollLog ?s @ [f] \<rparr>)"
  have "length (faqItems ?r) = length (faqItems st)
           \<and> i \<notin> searchOpenedItems ?r
           \<and> itemFlags (faqItems ?r ! i) = itemFlags (faqItems st ! i)
           \<and> clicksOn i ?r = clicksOn i st"
  proof (cases found)
    case None
    then show ?thesis
      using s u(2) fl by (simp add: clicksOn_def)
  next
    case (Some f)
    let ?s2 = "?s\<lparr> faqItems := items', scrollLog := scrollLog ?s @ [f] \<rparr>"
    have base: "length (faqItems ?s2) = length (faqItems st)" "i \<notin> searchOpenedItems ?s2"
      "itemFlags (faqItems ?s2 ! i) = itemFlags (faqItems st ! i)"
      "clicksOn i ?s2 = clicksOn i st"
      using s u(2) fl by (simp_all add: clicksOn_def)
    show ?thesis
    proof (cases "f = i")
      case True
      from base(3) assms(3) have "openedBySearchAttr (faqItems ?s2 ! i) = Some ''true''"
        by (simp add: itemFlags_def)
      then have "openFaqItem i ?s2 = ?s2"
        by (intro openFaqItem_skipped) simp
      with base Some True show ?thesis by simp
    next
      case False
      then have "i \<noteq> f" by simp
      from openFaqItem_other [OF this, of ?s2] openFaqItem_length [of f ?s2] base Some
      show ?thesis by simp
    qed
  qed
  with u(1) show ?thesis
    by (simp add: onSearch_nonempty [OF False])
qed

lemma searches_protected:
  assumes "i < length (faqItems st)" "i \<notin> searchOpenedItems st"
    "openedBySearchAttr (faqItems st ! i) = Some ''true''"
  shows "\<exists>st'. runEvents (map Search inputValues) st = Some st'
           \<and> length (faqItems st') = length (faqItems st)
           \<and> i \<notin> searchOpenedItems st'
           \<and> itemFlags (faqItems st' ! i) = itemFlags (faqItems st ! i)
           \<and> clicksOn i st' = clicksOn i st"
  using assms
proof (induction inputValues arbitrary: st)
  case Nil
  then show ?case by simp
next
  case (Cons v vs)
  from onSearch_protected [OF Cons.prems, of v]
  obtain s1 where s1: "onSearch v st = Some s1" "length (faqItems s1) = length (faqItems st)"
    "i \<notin> searchOpenedItems s1" "itemFlags (faqItems s1 ! i) = itemFlags (faqItems st ! i)"
    "clicksOn i s1 = clicksOn i st"
    by blast
  from s1(2) Cons.prems(1) have a: "i < length (faqItems s1)" by simp
  from s1(4) Cons.prems(3) have b: "openedBySearchAttr (faqItems s1 ! i) = Some ''true''"
    by (simp add: itemFlags_def)
  from Cons.IH [OF a s1(3) b]
  obtain st' where "runEvents (map Search vs) s1 = Some st'"
    "length (faqItems st') = length (faqItems s1)"
    "i \<notin> searchOpenedItems st'" "itemFlags (faqItems st' ! i) = itemFlags (faqItems s1 ! i)"
    "clicksOn i st' = clicksOn i s1"
    by blast
  with s1 show ?case by simp
qed

lemma events_invariant:
  assumes "searchOpenedInvariant st"
  shows "\<exists>st'. runEvents events st = Some st' \<and> searchOpenedInvariant st'"
  using assms
proof (induction events arbitrary: st)
  case Nil
  then show ?case by simp
next
  case (Cons e es)
  have "\<exists>s1. handleEvent e st = Some s1 \<and> searchOpenedInvariant s1"
  proof (cases e)
    case (UserClick j)
    then show ?thesis
      using searchOpenedInvariant_userClick [OF Cons.prems] by simp
  next
    case (Search v)
    then show ?thesis
      using onSearch_invariant [OF Cons.prems] by simp
  qed
  then obtain s1 where s1: "handleEvent e st = Some s1" "searchOpenedInvariant s1"
    by blast
  from Cons.IH [OF s1(2)] s1(1) show ?case by simp
qed

subsection \<open>The claims about the search controller\<close>

text \<open>
  What \<open>findFirstMatchAndAct\<close> does. For a query that is not empty after trimming,
  let entry \<open>f\<close> be the first in page order whose title or answer text contains
  the normalised query. The search brings \<open>f\<close> into view and no other entry. If
  \<open>f\<close> has a question header and its marker is not \<open>true\<close>, the controller
  clicks the header, sets the marker and records \<open>f\<close> in the set; the click is the
  toggle action, and \<open>openFaqItem\<close> does not look whether the entry is open.
  Otherwise it leaves \<open>f\<close> as it is. No other entry is clicked, marked or recorded.
  In every matching entry the cleared title and answer are passed through the
  highlight operation; the other entries are only cleared.
\<close>

lemma findFirstMatchAndAct_first_match:
  assumes "normalizeText query \<noteq> []"
    and "f < length (faqItems st)"
    and "itemMatchesQuery (faqItems st ! f) (normalizeText query)"
    and "\<forall>j < f. \<not> itemMatchesQuery (faqItems st ! j) (normalizeText query)"
  shows "\<exists>st'. findFirstMatchAndAct query st = Some st'
      \<and> length (faqItems st') = length (faqItems st)
      \<and> scrollLog st' = scrollLog st @ [f]
      \<and> (if questionWrapper (faqItems st ! f)
              \<and> openedBySearchAttr (faqItems st ! f) \<noteq> Some ''true''
          then clickLog st' = clickLog st @ [(SearchController, f)]
             \<and> searchOpenedItems st' = insert f (searchOpenedItems st)
             \<and> isFaqItemOpen (faqItems st' ! f) = (\<not> isFaqItemOpen (faqItems st ! f))
             \<and> openedBySearchAttr (faqItems st' ! f) = Some ''true''
          else clickLog st' = clickLog st
             \<and> searchOpenedItems st' = searchOpenedItems st
             \<and> itemFlags (faqItems st' ! f) = itemFlags (faqItems st ! f))
      \<and> (\<forall>i < length (faqItems st). i \<noteq> f \<longrightarrow>
            itemFlags (faqItems st' ! i) = itemFlags (faqItems st ! i))
      \<and> (\<forall>i < length (faqItems st).
            if itemMatchesQuery (faqItems st ! i) (normalizeText query)
            then highlightRegion (map_option clearHighlights (questionTitle (faqItems st ! i)))
                   (normalizeText query) = Some (questionTitle (faqItems st' ! i))
               \<and> highlightRegion (map_option clearHighlights (answer (faqItems st ! i)))
                   (normalizeText query) = Some (answer (faqItems st' ! i))
            else questionTitle (faqItems st' ! i)
                   = map_option clearHighlights (questionTitle (faqItems st ! i))
               \<and> answer (faqItems st' ! i)
                   = map_option clearHighlights (answer (faqItems st ! i)))"
proof -
  let ?q = "normalizeText query"
  from findFirstMatchAndAct_unfold [OF assms(1), of st]
  obtain items' found where u:
    "matchLoop ?q 0 (map clearItem (faqItems st)) None = Some (items', found)"
    "findFirstMatchAndAct query st =
            Some (case found of
                    None \<Rightarrow> st\<lparr> faqItems := items' \<rparr>
                  | Some f \<Rightarrow> openFaqItem f (st\<lparr> faqItems := items', scrollLog := scrollLog st @ [f] \<rparr>))"
    "length items' = length (faqItems st)"
    "\<forall>j < length (faqItems st). itemFlags (items' ! j) = itemFlags (faqItems st ! j)"
    "\<forall>j < length (faqItems st).
              if itemMatchesQuery (faqItems st ! j) ?q
              then highlightRegion (map_option clearHighlights (questionTitle (faqItems st ! j))) ?q
                     = Some (questionTitle (items' ! j))
                 \<and> highlightRegion (map_option clearHighlights (answer (faqItems st ! j))) ?q
                     = Some (answer (items' ! j))
              else items' ! j = clearItem (faqItems st ! j)"
    by blast
  have first: "f < length (map clearItem (faqItems st))"
    "itemMatchesQuery (map clearItem (faqItems st) ! f) ?q"
    "\<forall>j < f. \<not> itemMatchesQuery (map clearItem (faqItems st) ! j) ?q"
    using assms(2,3,4) by (simp_all add: itemMatchesQuery_clearItem)
  from matchLoop_found_first [OF u(1) first] have found: "found = Some f"
    by simp
  let ?s2 = "st\<lparr> faqItems := items', scrollLog := scrollLog st @ [f] \<rparr>"
  let ?st' = "openFaqItem f ?s2"
  have res: "findFirstMatchAndAct query st = Some ?st'"
    using u(2) found by simp
  have flf: "itemFlags (items' ! f) = itemFlags (faqItems st ! f)"
    using u(4) assms(2) by simp
  have regions2: "\<forall>i < length (faqItems st).
            if itemMatchesQuery (faqItems st ! i) ?q
            then highlightRegion (map_option clearHighlights (questionTitle (faqItems st ! i))) ?q
                   = Some (questionTitle (items' ! i))
               \<and> highlightRegion (map_option clearHighlights (answer (faqItems st ! i))) ?q
                   = Some (answer (items' ! i))
            else questionTitle (items' ! i)
                   = map_option clearHighlights (questionTitle (faqItems st ! i))
               \<and> answer (items' ! i)
                   = map_option clearHighlights (answer (faqItems st ! i))"
  proof (intro allI impI)
    fix i
    assume "i < length (faqItems st)"
    with u(5) show "if itemMatchesQuery (faqItems st ! i) ?q
            then highlightRegion (map_option clearHighlights (questionTitle (faqItems st ! i))) ?q
                   = Some (questionTitle (items' ! i))
               \<and> highlightRegion (map_option clearHighlights (answer (faqItems st ! i))) ?q
                   = Some (answer (items' ! i))
            else questionTitle (items' ! i)
                   = map_option clearHighlights (questionTitle (faqItems st ! i))
               \<and> answer (items' ! i)
                   = map_option clearHighlights (answer (faqItems st ! i))"
      by (cases "itemMatchesQuery (faqItems st ! i) ?q") (auto simp: clearItem_def)
  qed
  show ?thesis
  proof (cases "questionWrapper (faqItems st ! f)
              \<and> openedBySearchAttr (faqItems st ! f) \<noteq> Some ''true''")
    case True
    with flf have w: "questionWrapper (faqItems ?s2 ! f)"
      and a: "openedBySearchAttr (faqItems ?s2 ! f) \<noteq> Some ''true''"
      by (simp_all add: itemFlags_def)
    note o = openFaqItem_opened [OF w a]
    have f2: "f < length (faqItems ?s2)"
      using u(3) assms(2) by simp
    have item_f: "faqItems ?st' ! f
             = (items' ! f)\<lparr> isFaqItemOpen := \<not> isFaqItemOpen (items' ! f),
                                   openedBySearchAttr := Some ''true'' \<rparr>"
      using o(6) [OF f2] by simp
    have others: "\<And>i. i \<noteq> f \<Longrightarrow> faqItems ?st' ! i = items' ! i"
      using o(5) by simp
    have regions3: "\<And>i. questionTitle (faqItems ?st' ! i) = questionTitle (items' ! i)"
      "\<And>i. answer (faqItems ?st' ! i) = answer (items' ! i)"
    proof -
      fix i
      show "questionTitle (faqItems ?st' ! i) = questionTitle (items' ! i)"
        by (cases "i = f") (simp_all add: item_f others)
      show "answer (faqItems ?st' ! i) = answer (items' ! i)"
        by (cases "i = f") (simp_all add: item_f others)
    qed
    have c1: "length (faqItems ?st') = length (faqItems st)"
      using o(1) u(3) by simp
    have c2: "scrollLog ?st' = scrollLog st @ [f]"
      using o(2) by simp
    have c3: "if questionWrapper (faqItems st ! f)
              \<and> openedBySearchAttr (faqItems st ! f) \<noteq> Some ''true''
          then clickLog ?st' = clickLog st @ [(SearchController, f)]
             \<and> searchOpenedItems ?st' = insert f (searchOpenedItems st)
             \<and> isFaqItemOpen (faqItems ?st' ! f) = (\<not> isFaqItemOpen (faqItems st ! f))
             \<and> openedBySearchAttr (faqItems ?st' ! f) = Some ''true''
          else clickLog ?st' = clickLog st
             \<and> searchOpenedItems ?st' = searchOpenedItems st
             \<and> itemFlags (faqItems ?st' ! f) = itemFlags (faqItems st ! f)"
      using True flf o(3) o(4) by (simp add: item_f itemFlags_def)
    have c4: "\<forall>i < length (faqItems st). i \<noteq> f \<longrightarrow>
            itemFlags (faqItems ?st' ! i) = itemFlags (faqItems st ! i)"
      using u(4) by (simp add: others)
    have c5: "\<forall>i < length (faqItems st).
            if itemMatchesQuery (faqItems st ! i) ?q
            then highlightRegion (map_option clearHighlights (questionTitle (faqItems st ! i))) ?q
                   = Some (questionTitle (faqItems ?st' ! i))
               \<and> highlightRegion (map_option clearHighlights (answer (faqItems st ! i))) ?q
                   = Some (answer (faqItems ?st' ! i))
            else questionTitle (faqItems ?st' ! i)
                   = map_option clearHighlights (questionTitle (faqItems st ! i))
               \<and> answer (faqItems ?st' ! i)
                   = map_option clearHighlights (answer (faqItems st ! i))"
      unfolding regions3 by (rule regions2)
    from res c1 c2 c3 c4 c5 show ?thesis by blast
  next
    case False
    with flf have "\<not> questionWrapper (faqItems ?s2 ! f)
        \<or> openedBySearchAttr (faqItems ?s2 ! f) = Some ''true''"
      by (auto simp: itemFlags_def)
    then have same: "?st' = ?s2"
      by (rule openFaqItem_skipped)
    have c0: "findFirstMatchAndAct query st = Some ?s2"
      using res same by simp
    have c1: "length (faqItems ?s2) = length (faqItems st)"
      using u(3) by simp
    have c2: "scrollLog ?s2 = scrollLog st @ [f]"
      by simp
    have c3: "if questionWrapper (faqItems st ! f)
              \<and> openedBySearchAttr (faqItems st ! f) \<noteq> Some ''true''
          then clickLog ?s2 = clickLog st @ [(SearchController, f)]
             \<and> searchOpenedItems ?s2 = insert f (searchOpenedItems st)
             \<and> isFaqItemOpen (faqItems ?s2 ! f) = (\<not> isFaqItemOpen (faqItems st ! f))
             \<and> openedBySearchAttr (faqItems ?s2 ! f) = Some ''true''
          else clickLog ?s2 = clickLog st
             \<and> searchOpenedItems ?s2 = searchOpenedItems st
             \<and> itemFlags (faqItems ?s2 ! f) = itemFlags (faqItems st ! f)"
      using False flf by auto
    have c4: "\<forall>i < length (faqItems st). i \<noteq> f \<longrightarrow>
            itemFlags (faqItems ?s2 ! i) = itemFlags (faqItems st ! i)"
      using u(4) by simp
    have e: "faqItems ?s2 = items'"
      by simp
    have c5: "\<forall>i < length (faqItems st).
            if itemMatchesQuery (faqItems st ! i) ?q
            then highlightRegion (map_option clearHighlights (questionTitle (faqItems st ! i))) ?q
                   = Some (questionTitle (faqItems ?s2 ! i))
               \<and> highlightRegion (map_option clearHighlights (answer (faqItems st ! i))) ?q
                   = Some (answer (faqItems ?s2 ! i))
            else questionTitle (faqItems ?s2 ! i)
                   = map_option clearHighlights (questionTitle (faqItems st ! i))
               \<and> answer (faqItems ?s2 ! i)
                   = map_option clearHighlights (answer (faqItems st ! i))"
      unfolding e by (rule regions2)
    from c0 c1 c2 c3 c4 c5 show ?thesis by blast
  qed
qed

text \<open>
  C5 at the failing input: a page whose first entry is open when it is loaded (no
  click has touched it, so it carries no marker) and matches the query \<open>cost\<close> by
  its answer. The search scrolls to the entry and, instead of leaving the open entry
  open, clicks its header: the entry is closed, and it is recorded in the set as
  opened by search.
\<close>

theorem open_first_match_closed_by_search:
  "isFaqItemOpen (faqItems (initialState [openPricingItem, licenseItem]) ! 0)
   \<and> openedBySearchAttr (faqItems (initialState [openPricingItem, licenseItem]) ! 0) = None
   \<and> questionWrapper (faqItems (initialState [openPricingItem, licenseItem]) ! 0)
   \<and> itemMatchesQuery (faqItems (initialState [openPricingItem, licenseItem]) ! 0)
        (normalizeText ''cost'')
   \<and> (case onSearch ''cost'' (initialState [openPricingItem, licenseItem]) of
         None \<Rightarrow> False
       | Some st' \<Rightarrow>
           scrollLog st' = [0]
           \<and> clickLog st' = [(SearchController, 0)]
           \<and> \<not> isFaqItemOpen (faqItems st' ! 0)
           \<and> 0 \<in> searchOpenedItems st')"
  by code_simp

text \<open>
  The same guard keeps a closed entry closed when it carries the marker: after the
  user has opened and closed the first entry by two clicks, it is closed and matches
  the query \<open>cost\<close> first, yet the search does not open it and does not record it.
\<close>

lemma closed_marked_entry_not_opened:
  "(case runEvents [UserClick 0, UserClick 0] (initialState [pricingItem, licenseItem]) of
      None \<Rightarrow> False
    | Some st \<Rightarrow>
        itemMatchesQuery (faqItems st ! 0) (normalizeText ''cost'')
        \<and> \<not> isFaqItemOpen (faqItems st ! 0)
        \<and> (case findFirstMatchAndAct ''cost'' st of
              None \<Rightarrow> False
            | Some st' \<Rightarrow>
                \<not> isFaqItemOpen (faqItems st' ! 0)
                \<and> 0 \<notin> searchOpenedItems st'
                \<and> clickLog st' = clickLog st))"
  by code_simp

text \<open>
  C6, as the code has it. A click on the question header of an entry sets the marker
  of the entry to \<open>true\<close>, toggles the entry and leaves the set as it is. An entry
  that carries the marker and is not in the set, as after a click of the user on an
  entry that the search had not opened, is not touched by any later run of the
  search: it is not clicked, it stays open or closed as it was, it keeps the marker
  and it does not enter the set.
\<close>

theorem user_click_sets_marker:
  "(i < length (faqItems st) \<and> questionWrapper (faqItems st ! i) \<longrightarrow>
       openedBySearchAttr (faqItems (userClick i st) ! i) = Some ''true''
     \<and> isFaqItemOpen (faqItems (userClick i st) ! i) = (\<not> isFaqItemOpen (faqItems st ! i)))
   \<and> searchOpenedItems (userClick i st) = searchOpenedItems st
   \<and> (i < length (faqItems st) \<and> i \<notin> searchOpenedItems st
        \<and> openedBySearchAttr (faqItems st ! i) = Some ''true'' \<longrightarrow>
       (\<exists>st'. runEvents (map Search inputValues) st = Some st'
          \<and> i \<notin> searchOpenedItems st'
          \<and> itemFlags (faqItems st' ! i) = itemFlags (faqItems st ! i)
          \<and> clicksOn i st' = clicksOn i st))"
proof -
  have "i < length (faqItems st) \<and> questionWrapper (faqItems st ! i) \<longrightarrow>
       openedBySearchAttr (faqItems (userClick i st) ! i) = Some ''true''
     \<and> isFaqItemOpen (faqItems (userClick i st) ! i) = (\<not> isFaqItemOpen (faqItems st ! i))"
    by (simp add: userClick_def clickQuestionWrapper_nth)
  moreover have "i < length (faqItems st) \<and> i \<notin> searchOpenedItems st
        \<and> openedBySearchAttr (faqItems st ! i) = Some ''true'' \<longrightarrow>
       (\<exists>st'. runEvents (map Search inputValues) st = Some st'
          \<and> i \<notin> searchOpenedItems st'
          \<and> itemFlags (faqItems st' ! i) = itemFlags (faqItems st ! i)
          \<and> clicksOn i st' = clicksOn i st)"
    using searches_protected [of i st inputValues] by blast
  ultimately show ?thesis
    by (simp add: searchOpenedItems_userClick)
qed

lemma clickedPage_facts:
  "0 < length (faqItems (initialState [pricingItem, licenseItem]))"
  "questionWrapper (faqItems (initialState [pricingItem, licenseItem]) ! 0)"
  "\<not> isFaqItemOpen (faqItems (initialState [pricingItem, licenseItem]) ! 0)"
  "0 < length (faqItems (userClick 0 (initialState [pricingItem, licenseItem])))"
  "0 \<notin> searchOpenedItems (initialState [pricingItem, licenseItem])"
  by code_simp+

theorem user_click_sets_marker_witness:
  "0 < length (faqItems (initialState [pricingItem, licenseItem]))
   \<and> questionWrapper (faqItems (initialState [pricingItem, licenseItem]) ! 0)
   \<and> openedBySearchAttr (faqItems (userClick 0 (initialState [pricingItem, licenseItem])) ! 0)
       = Some ''true''
   \<and> isFaqItemOpen (faqItems (userClick 0 (initialState [pricingItem, licenseItem])) ! 0)
   \<and> 0 \<notin> searchOpenedItems (userClick 0 (initialState [pricingItem, licenseItem]))
   \<and> (\<exists>st'. runEvents (map Search [''cost'', '' ''])
               (userClick 0 (initialState [pricingItem, licenseItem])) = Some st'
          \<and> 0 \<notin> searchOpenedItems st'
          \<and> isFaqItemOpen (faqItems st' ! 0)
          \<and> openedBySearchAttr (faqItems st' ! 0) = Some ''true'')"
proof -
  let ?page = "initialState [pricingItem, licenseItem]"
  let ?clicked = "userClick 0 ?page"
  from user_click_sets_marker [of 0 ?page "[]"] clickedPage_facts(1,2,3,5)
  have clicked: "openedBySearchAttr (faqItems ?clicked ! 0) = Some ''true''"
    "isFaqItemOpen (faqItems ?clicked ! 0)" "0 \<notin> searchOpenedItems ?clicked"
    by simp_all
  from user_click_sets_marker [of 0 ?clicked "[''cost'', '' '']"] clickedPage_facts(4) clicked
  obtain st' where st': "runEvents (map Search [''cost'', '' '']) ?clicked = Some st'"
    "0 \<notin> searchOpenedItems st'"
    "itemFlags (faqItems st' ! 0) = itemFlags (faqItems ?clicked ! 0)"
    by blast
  from st'(3) clicked
  have "isFaqItemOpen (faqItems st' ! 0)" "openedBySearchAttr (faqItems st' ! 0) = Some ''true''"
    by (simp_all add: itemFlags_def)
  with st'(1,2) clicked clickedPage_facts(1,2) show ?thesis by blast
qed

text \<open>
  C6 as stated fails. The search opens the first entry; the user closes it and opens
  it again. The marker of the entry is then \<open>true\<close>, not cleared, the latest click on
  it is the user's, and it is open; clearing the query closes it by a click of the
  controller.
\<close>

theorem user_opened_entry_closed_counterexample:
  "(case runEvents [Search ''cost'', UserClick 0, UserClick 0]
           (initialState [pricingItem, licenseItem]) of
      None \<Rightarrow> False
    | Some st \<Rightarrow>
        lastClickBy st 0 = Some User
        \<and> isFaqItemOpen (faqItems st ! 0)
        \<and> openedBySearchAttr (faqItems st ! 0) = Some ''true''
        \<and> (case onSearch '' '' st of
              None \<Rightarrow> False
            | Some st' \<Rightarrow>
                \<not> isFaqItemOpen (faqItems st' ! 0)
                \<and> lastClickBy st' 0 = Some SearchController))"
  by code_simp

text \<open>
  C7, as the code has it. Every run of events from the initial state ends in a state
  in which each entry of the set has a question header, carries the marker, and has
  had a click dispatched on it by the controller itself; so an entry that only the
  user has clicked is never in the set. A click of the user neither adds an entry to
  the set nor removes one.
\<close>

theorem search_opened_set_invariant:
  "\<exists>st. runEvents events (initialState page) = Some st
      \<and> searchOpenedInvariant st
      \<and> (\<forall>j. searchOpenedItems (userClick j st) = searchOpenedItems st)"
proof -
  have "searchOpenedInvariant (initialState page)"
    by (simp add: searchOpenedInvariant_def initialState_def)
  from events_invariant [OF this, of events] show ?thesis
    by (auto simp: searchOpenedItems_userClick)
qed

lemma searchedPage_set:
  "(case runEvents [Search ''cost''] (initialState [pricingItem, licenseItem]) of
      None \<Rightarrow> False
    | Some st \<Rightarrow> 0 \<in> searchOpenedItems st)"
  by code_simp

theorem search_opened_set_invariant_witness:
  "\<exists>st. runEvents [Search ''cost''] (initialState [pricingItem, licenseItem]) = Some st
      \<and> 0 \<in> searchOpenedItems st
      \<and> questionWrapper (faqItems st ! 0)
      \<and> openedBySearchAttr (faqItems st ! 0) = Some ''true''
      \<and> (SearchController, 0) \<in> set (clickLog st)"
proof -
  from search_opened_set_invariant [of "[Search ''cost'']" "[pricingItem, licenseItem]"]
  obtain st where st:
    "runEvents [Search ''cost''] (initialState [pricingItem, licenseItem]) = Some st"
    "searchOpenedInvariant st"
    by blast
  from searchedPage_set st(1) have "0 \<in> searchOpenedItems st"
    by simp
  with st show ?thesis
    unfolding searchOpenedInvariant_def by blast
qed

text \<open>
  C7 as stated fails. After the search has opened the first entry and the user has
  closed it and opened it again, the entry is in the set and open, and the click that
  opened it was the user's.
\<close>

theorem user_opened_entry_in_set_counterexample:
  "(case runEvents [Search ''cost'', UserClick 0, UserClick 0]
           (initialState [pricingItem, licenseItem]) of
      None \<Rightarrow> False
    | Some st \<Rightarrow>
        0 \<in> searchOpenedItems st
        \<and> isFaqItemOpen (faqItems st ! 0)
        \<and> lastClickBy st 0 = Some User
        \<and> clicksOn 0 st = [(SearchController, 0), (User, 0), (User, 0)])"
  by code_simp

text \<open>
  C8. A search with an empty query, or one of white space only, returns and leaves
  the flattened text of the title and of the answer of every entry as it was. The
  highlight operation on the empty query gives the container back unchanged, and the
  clear operation keeps the flattened text of any container.
\<close>

theorem empty_query_keeps_text:
  assumes "trim inputValue = []"
  shows "(\<exists>st'. onSearch inputValue st = Some st'
            \<and> map itemText (faqItems st') = map itemText (faqItems st))
       \<and> highlightMatchesInElement c [] = Some c
       \<and> textContent (clearHighlights c) = textContent c"
proof -
  let ?s0 = "st\<lparr> faqItems := map clearItem (faqItems st) \<rparr>"
  have "map itemText (faqItems (closeAll ?s0)) = map itemText (faqItems ?s0)"
    by (rule closedFrom_itemText [OF closeAll_closedFrom])
  also have "\<dots> = map itemText (faqItems st)"
    by (simp add: itemText_clearItem comp_def)
  finally have "\<exists>st'. onSearch inputValue st = Some st'
            \<and> map itemText (faqItems st') = map itemText (faqItems st)"
    by (simp add: onSearch_empty [OF assms])
  moreover have "highlightMatchesInElement c [] = Some c"
    by (cases c) simp_all
  ultimately show ?thesis
    by (simp add: textContent_clearHighlights)
qed

lemma highlightedPage_facts:
  "trim ''  '' = []"
  "(case onSearch ''cost'' (initialState [pricingItem, licenseItem]) of
      None \<Rightarrow> False
    | Some st \<Rightarrow> map itemText (faqItems st)
        = [(Some ''Pricing'', Some ''What does it cost?''),
           (Some ''License'', Some ''The cost of a license'')]
        \<and> (case answer (faqItems st ! 0) of None \<Rightarrow> False | Some n \<Rightarrow> hasHighlightMark n))"
  by code_simp+

theorem empty_query_keeps_text_witness:
  "trim ''  '' = []
   \<and> (\<exists>st st'. onSearch ''cost'' (initialState [pricingItem, licenseItem]) = Some st
         \<and> onSearch ''  '' st = Some st'
         \<and> map itemText (faqItems st')
             = [(Some ''Pricing'', Some ''What does it cost?''),
                (Some ''License'', Some ''The cost of a license'')])"
proof -
  from highlightedPage_facts(2) obtain st where st:
    "onSearch ''cost'' (initialState [pricingItem, licenseItem]) = Some st"
    "map itemText (faqItems st)
        = [(Some ''Pricing'', Some ''What does it cost?''),
           (Some ''License'', Some ''The cost of a license'')]"
    by (auto split: option.splits)
  from empty_query_keeps_text [OF highlightedPage_facts(1), of st]
  obtain st' where "onSearch ''  '' st = Some st'"
    "map itemText (faqItems st') = map itemText (faqItems st)"
    by blast
  with st highlightedPage_facts(1) show ?thesis by auto
qed

end
